theory Spec2Isabelle
  imports Main
begin

section \<open>JavaScript strings\<close>

text \<open>
  A JavaScript string is a sequence of UTF-16 code units. The markers the launcher looks
  for are Chinese text, so a string is modelled as the list of its code units, each a
  natural number; ASCII text is written through \<open>ascii\<close>.
\<close>

type_synonym jsstring = "nat list"

definition ascii :: "string \<Rightarrow> jsstring" where
  "ascii s = map of_char s"

text \<open>\<open>starts_at t s\<close>: the text \<open>t\<close> stands at the front of \<open>s\<close>.\<close>

fun starts_at :: "'a list \<Rightarrow> 'a list \<Rightarrow> bool" where
  "starts_at [] s = True"
| "starts_at (a # t) [] = False"
| "starts_at (a # t) (b # s) = (a = b \<and> starts_at t s)"

text \<open>\<open>str_includes s t\<close> is \<^verbatim>\<open>s.includes(t)\<close>: \<open>t\<close> occurs in \<open>s\<close> as a contiguous run.\<close>

fun str_includes :: "'a list \<Rightarrow> 'a list \<Rightarrow> bool" where
  "str_includes [] t = starts_at t []"
| "str_includes (c # s) t = (starts_at t (c # s) \<or> str_includes s t)"

text \<open>Decimal text of a number, as a template literal prints an integer.\<close>

fun digits :: "nat \<Rightarrow> jsstring" where
  "digits n = (if n < 10 then [48 + n] else digits (n div 10) @ [48 + n mod 10])"

declare digits.simps [simp del]

definition number_text :: "int \<Rightarrow> jsstring" where
  "number_text i = (if i < 0 then 45 # digits (nat (- i)) else digits (nat i))"

section \<open>Log lines and the log store (services/logStore)\<close>

record LogMessage =
  tunnel_id :: int
  message :: jsstring
  timestamp :: jsstring

definition maxLogs :: nat where
  "maxLogs = 5000"

text \<open>\<^verbatim>\<open>xs.slice(-n)\<close> for a positive \<open>n\<close>: the last \<open>n\<close> entries, or all of them.\<close>

definition slice_last :: "nat \<Rightarrow> 'a list \<Rightarrow> 'a list" where
  "slice_last n xs = drop (length xs - n) xs"

definition trimLogs :: "LogMessage list \<Rightarrow> LogMessage list" where
  "trimLogs logs = (if length logs > maxLogs then slice_last maxLogs logs else logs)"

text \<open>The buffer after \<^verbatim>\<open>this.logs.push(log); this.trimLogs()\<close>.\<close>

definition pushLog :: "LogMessage list \<Rightarrow> LogMessage \<Rightarrow> LogMessage list" where
  "pushLog logs log = trimLogs (logs @ [log])"

section \<open>Promises\<close>

text \<open>
  The outcome of an asynchronous call, seen from its caller: \<open>Resolves d v\<close> fulfils
  with \<open>v\<close>, \<open>d\<close> milliseconds after the call; \<open>Rejects d e\<close> rejects after \<open>d\<close>
  milliseconds with an error whose message is \<open>e\<close> (\<open>None\<close> when the thrown value is
  not an \<^verbatim>\<open>Error\<close>); \<open>Pending\<close> never settles.
\<close>

datatype 'a promise = Resolves nat 'a | Rejects nat "jsstring option" | Pending

text \<open>\<^verbatim>\<open>try { return await p } catch { return v }\<close> and \<^verbatim>\<open>p.catch(() => v)\<close>.\<close>

definition or_else :: "'a promise \<Rightarrow> 'a \<Rightarrow> 'a promise" where
  "or_else p v = (case p of Resolves d x \<Rightarrow> Resolves d x | Rejects d e \<Rightarrow> Resolves d v | Pending \<Rightarrow> Pending)"

text \<open>The rest of an async function after \<^verbatim>\<open>await p\<close>, when the rest does not wait again.\<close>

definition and_then :: "'a promise \<Rightarrow> ('a \<Rightarrow> 'b) \<Rightarrow> 'b promise" where
  "and_then p f = (case p of Resolves d x \<Rightarrow> Resolves d (f x) | Rejects d e \<Rightarrow> Rejects d e | Pending \<Rightarrow> Pending)"

text \<open>A promise that starts only \<open>d0\<close> milliseconds from now.\<close>

definition later :: "nat \<Rightarrow> 'a promise \<Rightarrow> 'a promise" where
  "later d0 p = (case p of Resolves d x \<Rightarrow> Resolves (d0 + d) x | Rejects d e \<Rightarrow> Rejects (d0 + d) e | Pending \<Rightarrow> Pending)"

text \<open>
  \<^verbatim>\<open>Promise.all\<close>: rejects with the first rejection, even while other members are
  still pending; otherwise waits for every member.
\<close>

definition both :: "'a promise \<Rightarrow> 'b promise \<Rightarrow> ('a \<times> 'b) promise" where
  "both p q =
     (case p of
        Rejects d e \<Rightarrow> (case q of Rejects d' e' \<Rightarrow> (if d' < d then Rejects d' e' else Rejects d e) | _ \<Rightarrow> Rejects d e)
      | Pending \<Rightarrow> (case q of Rejects d' e' \<Rightarrow> Rejects d' e' | _ \<Rightarrow> Pending)
      | Resolves d x \<Rightarrow>
          (case q of Rejects d' e' \<Rightarrow> Rejects d' e' | Pending \<Rightarrow> Pending
           | Resolves d' y \<Rightarrow> Resolves (max d d') (x, y)))"

fun promise_all :: "'a promise list \<Rightarrow> 'a list promise" where
  "promise_all [] = Resolves 0 []"
| "promise_all (p # ps) = and_then (both p (promise_all ps)) (\<lambda>(x, xs). x # xs)"

section \<open>The process controller (services/frpcManager)\<close>

text \<open>
  The three status queries of \<^verbatim>\<open>FrpcManager\<close>. Each takes the outcome of its
  \<^verbatim>\<open>invoke\<close> call across the IPC boundary as a parameter.
\<close>

definition isTunnelRunning :: "(int \<Rightarrow> bool promise) \<Rightarrow> int \<Rightarrow> bool promise" where
  "isTunnelRunning invoke_is_frpc_running tunnelId = or_else (invoke_is_frpc_running tunnelId) False"

definition getRunningTunnels :: "int list promise \<Rightarrow> int list promise" where
  "getRunningTunnels invoke_get_running_tunnels = or_else invoke_get_running_tunnels []"

definition resolveDomainToIp :: "(jsstring \<Rightarrow> jsstring option promise) \<Rightarrow> jsstring \<Rightarrow> jsstring option promise" where
  "resolveDomainToIp invoke_resolve_domain_to_ip domain = or_else (invoke_resolve_domain_to_ip domain) None"

section \<open>Sessions and the tunnel list (TunnelList/hooks/useTunnelList)\<close>

text \<open>
  Modelled from the spec: the interfaces \<^verbatim>\<open>Tunnel\<close> (services/api) and
  \<^verbatim>\<open>CustomTunnel\<close> (services/customTunnelService) are declared outside the sources
  at hand. A provisioned session has a numeric id, a display name, a protocol type and a
  remote port or bound domain; a custom session has a numeric id of its own. The fields
  are the source's \<^verbatim>\<open>id\<close>, \<^verbatim>\<open>name\<close>, \<^verbatim>\<open>type\<close> and \<^verbatim>\<open>dorp\<close>; \<open>ttype\<close> is
  \<open>None\<close> where the source finds \<^verbatim>\<open>tunnel.type\<close> undefined, and an absent name or
  \<^verbatim>\<open>dorp\<close> is the empty string.
\<close>

record Tunnel =
  tid :: int
  tname :: jsstring
  ttype :: "jsstring option"
  dorp :: jsstring

record CustomTunnel =
  cid :: int

datatype UnifiedTunnel = Api Tunnel | Custom CustomTunnel

text \<open>The key \<^verbatim>\<open>`api_${tunnel.data.id}`\<close> or \<^verbatim>\<open>`custom_${tunnel.data.id}`\<close>.\<close>

definition tunnelKey :: "UnifiedTunnel \<Rightarrow> jsstring" where
  "tunnelKey tunnel =
     (case tunnel of
        Api d \<Rightarrow> ascii ''api_'' @ number_text (tid d)
      | Custom d \<Rightarrow> ascii ''custom_'' @ number_text (cid d))"

record TunnelListState =
  tunnels :: "UnifiedTunnel list"
  loading :: bool
  error :: jsstring
  runningTunnels :: "jsstring set"
  tunnelListCache :: "Tunnel list"

text \<open>
  What the two running queries answer: the IPC call behind
  \<^verbatim>\<open>frpcManager.isTunnelRunning\<close>, and \<^verbatim>\<open>customTunnelService.isCustomTunnelRunning\<close>
  (a service outside the sources at hand, so any outcome is allowed).
\<close>

record StatusEnv =
  invoke_is_frpc_running :: "int \<Rightarrow> bool promise"
  isCustomTunnelRunning :: "int \<Rightarrow> bool promise"

definition queryRunning :: "StatusEnv \<Rightarrow> UnifiedTunnel \<Rightarrow> bool promise" where
  "queryRunning env tunnel =
     (case tunnel of
        Api d \<Rightarrow> isTunnelRunning (invoke_is_frpc_running env) (tid d)
      | Custom d \<Rightarrow> isCustomTunnelRunning env (cid d))"

text \<open>
  \<^verbatim>\<open>withTimeout\<close> of \<^verbatim>\<open>loadTunnels\<close>: whichever of the promise and the timer comes
  first settles the result; a promise that settles exactly with the timer loses to it.
\<close>

definition withTimeout :: "bool promise \<Rightarrow> nat \<Rightarrow> bool promise" where
  "withTimeout p timeoutMs =
     (case p of
        Resolves d v \<Rightarrow> (if d < timeoutMs then Resolves d v else Resolves timeoutMs False)
      | Rejects d e \<Rightarrow> (if d < timeoutMs then Resolves d False else Resolves timeoutMs False)
      | Pending \<Rightarrow> Resolves timeoutMs False)"

text \<open>
  One member of the fan-out of \<^verbatim>\<open>loadTunnels\<close>: the key it adds to \<^verbatim>\<open>running\<close>,
  if any.
\<close>

definition statusTask :: "StatusEnv \<Rightarrow> UnifiedTunnel \<Rightarrow> jsstring option promise" where
  "statusTask env tunnel =
     and_then (withTimeout (queryRunning env tunnel) 3000)
       (\<lambda>isRunning. if isRunning then Some (tunnelKey tunnel) else None)"

definition default_load_error :: jsstring where
  "default_load_error = [0x83B7, 0x53D6, 0x96A7, 0x9053, 0x5217, 0x8868, 0x5931, 0x8D25]"

text \<open>The \<^verbatim>\<open>catch\<close> and \<^verbatim>\<open>finally\<close> blocks of \<^verbatim>\<open>loadTunnels\<close>.\<close>

definition loadFailed :: "jsstring option \<Rightarrow> TunnelListState \<Rightarrow> TunnelListState" where
  "loadFailed err st =
     (let msg = (case err of Some m \<Rightarrow> m | None \<Rightarrow> default_load_error) in
      (if str_includes msg [0x767B, 0x5F55] \<or> str_includes msg (ascii ''token'') \<or>
          str_includes msg [0x4EE4, 0x724C]
       then st\<lparr>error := msg\<rparr> else st)\<lparr>loading := False\<rparr>)"

text \<open>
  \<^verbatim>\<open>loadTunnels\<close>: the state of the hook once the call has gone as far as it ever
  gets. A pending fetch leaves it waiting, with \<^verbatim>\<open>loading\<close> set.
\<close>

definition loadTunnels ::
  "Tunnel list promise \<Rightarrow> CustomTunnel list promise \<Rightarrow> StatusEnv \<Rightarrow> TunnelListState \<Rightarrow> TunnelListState" where
  "loadTunnels fetchTunnels getCustomTunnels env st =
     (let st1 = st\<lparr>loading := True, error := []\<rparr> in
      case both (or_else fetchTunnels []) (or_else getCustomTunnels []) of
        Pending \<Rightarrow> st1
      | Rejects d err \<Rightarrow> loadFailed err st1
      | Resolves d (apiTunnels, customTunnels) \<Rightarrow>
          (let allTunnels = map Api apiTunnels @ map Custom customTunnels;
               st2 = st1\<lparr>tunnels := allTunnels, tunnelListCache := apiTunnels, loading := False\<rparr> in
           case promise_all (map (statusTask env) allTunnels) of
             Pending \<Rightarrow> st2
           | Rejects d' err \<Rightarrow> loadFailed err st2
           | Resolves d' added \<Rightarrow>
               st2\<lparr>runningTunnels := set (List.map_filter (\<lambda>k. k) added), loading := False\<rparr>))"

text \<open>
  \<^verbatim>\<open>checkRunningStatus\<close>, the body of the 5000 ms interval (the handler of the
  auto-restart event runs the same loop over \<^verbatim>\<open>tunnelsRef.current\<close>): one query after
  the other, each awaited before the next is issued.
\<close>

fun checkLoop :: "StatusEnv \<Rightarrow> UnifiedTunnel list \<Rightarrow> jsstring set \<Rightarrow> jsstring set promise" where
  "checkLoop env [] running = Resolves 0 running"
| "checkLoop env (tunnel # rest) running =
     (case queryRunning env tunnel of
        Resolves d isRunning \<Rightarrow>
          later d (checkLoop env rest (if isRunning then insert (tunnelKey tunnel) running else running))
      | Rejects d e \<Rightarrow> Rejects d e
      | Pending \<Rightarrow> Pending)"

definition checkRunningStatus :: "StatusEnv \<Rightarrow> UnifiedTunnel list \<Rightarrow> jsstring set promise" where
  "checkRunningStatus env catalog = checkLoop env catalog {}"

text \<open>
  One tick of the interval. The effect arms no interval for an empty catalog, and
  \<^verbatim>\<open>setRunningTunnels\<close> is reached only when the loop has run to its end.
\<close>

definition periodicTick :: "StatusEnv \<Rightarrow> TunnelListState \<Rightarrow> TunnelListState" where
  "periodicTick env st =
     (if tunnels st = [] then st
      else case checkRunningStatus env (tunnels st) of
             Resolves d running \<Rightarrow> st\<lparr>runningTunnels := running\<rparr>
           | Rejects d e \<Rightarrow> st
           | Pending \<Rightarrow> st)"

section \<open>Notifications (App/hooks/useTunnelNotifications)\<close>

subsection \<open>The markers\<close>

definition process_started :: jsstring where
  "process_started = ascii ''frpc '' @ [0x8FDB, 0x7A0B, 0x5DF2, 0x542F, 0x52A8]"

definition mapping_ok :: jsstring where
  "mapping_ok = [0x6620, 0x5C04, 0x542F, 0x52A8, 0x6210, 0x529F]"

definition start_failed :: jsstring where
  "start_failed = [0x542F, 0x52A8, 0x5931, 0x8D25]"

definition launcher_tag :: jsstring where
  "launcher_tag = ascii ''[ChmlFrpLauncher]''"

definition started_ok :: jsstring where
  "started_ok = [0x542F, 0x52A8, 0x6210, 0x529F]"

subsection \<open>The session cache\<close>

text \<open>
  A \<^verbatim>\<open>Map<number, Tunnel>\<close> as an association list with one entry per key, in
  insertion order: \<open>map_set\<close> is \<^verbatim>\<open>Map.set\<close>, \<open>map_of\<close> is \<^verbatim>\<open>Map.get\<close>, and the map is
  empty exactly when the list is.
\<close>

fun map_set :: "int \<Rightarrow> 'v \<Rightarrow> (int \<times> 'v) list \<Rightarrow> (int \<times> 'v) list" where
  "map_set k v [] = [(k, v)]"
| "map_set k v ((k', v') # m) = (if k = k' then (k, v) # m else (k', v') # map_set k v m)"

record TunnelCache =
  updatedAt :: int
  cached :: "(int \<times> Tunnel) list"

text \<open>
  A call of \<^verbatim>\<open>getTunnelById\<close> that has not returned yet. It reads the cache and the
  clock before it first waits, so the call is either \<open>Cached\<close> (the cache was fresh; the
  entry found is already fixed) or \<open>Fetching\<close> (it waits for \<^verbatim>\<open>fetchTunnels\<close>, holding the
  clock value and the cache object it read).
\<close>

datatype lookup = Cached int "Tunnel option" | Fetching int int TunnelCache

fun lookup_tunnel :: "lookup \<Rightarrow> int" where
  "lookup_tunnel (Cached tunnelId t) = tunnelId"
| "lookup_tunnel (Fetching tunnelId now cache) = tunnelId"

definition getTunnelById_call :: "TunnelCache \<Rightarrow> int \<Rightarrow> int \<Rightarrow> lookup" where
  "getTunnelById_call cache now tunnelId =
     (if now - updatedAt cache < 30000 \<and> cached cache \<noteq> []
      then Cached tunnelId (map_of (cached cache) tunnelId)
      else Fetching tunnelId now cache)"

datatype 'a outcome = Fetched 'a | FetchFailed

text \<open>
  The rest of \<^verbatim>\<open>getTunnelById\<close> once \<^verbatim>\<open>fetchTunnels\<close> has settled: the session found
  and the cache that \<^verbatim>\<open>tunnelCacheRef\<close> then holds.
\<close>

definition getTunnelById_settle ::
  "lookup \<Rightarrow> Tunnel list outcome \<Rightarrow> TunnelCache \<Rightarrow> Tunnel option \<times> TunnelCache" where
  "getTunnelById_settle tk fetchTunnels current =
     (case tk of
        Cached tunnelId found \<Rightarrow> (found, current)
      | Fetching tunnelId now cache \<Rightarrow>
          (case fetchTunnels of
             Fetched fetched \<Rightarrow>
               (let nextMap = foldl (\<lambda>m t. map_set (tid t) t m) [] fetched
                in (map_of nextMap tunnelId, \<lparr>updatedAt = now, cached = nextMap\<rparr>))
           | FetchFailed \<Rightarrow> (map_of (cached cache) tunnelId, current)))"

subsection \<open>The friendly line\<close>

text \<open>
  \<^verbatim>\<open>toLowerCase\<close> on the letters A to Z. Other code units are left as they are; none
  of them lower-cases to a letter of \<^verbatim>\<open>http\<close> or \<^verbatim>\<open>https\<close>, the only texts the
  result is compared with.
\<close>

definition toLowerCase :: "jsstring \<Rightarrow> jsstring" where
  "toLowerCase s = map (\<lambda>c. if 65 \<le> c \<and> c \<le> 90 then c + 32 else c) s"

definition friendly_head :: jsstring where
  "friendly_head = ascii ''[I] [ChmlFrpLauncher] '' @ [0x96A7, 0x9053, 0x22]"

definition friendly_link :: jsstring where
  "friendly_link = [0x22, 0x542F, 0x52A8, 0x6210, 0x529F, 0xFF0C, 0x60A8, 0x53EF, 0x4EE5, 0x901A, 0x8FC7, 0x22]"

definition friendly_link_end :: jsstring where
  "friendly_link_end = [0x22, 0x8BBF, 0x95EE, 0x3002]"

definition friendly_plain_end :: jsstring where
  "friendly_plain_end = [0x22, 0x542F, 0x52A8, 0x6210, 0x529F, 0x3002]"

definition friendlyMessage :: "int \<Rightarrow> Tunnel \<Rightarrow> jsstring" where
  "friendlyMessage tunnelId tunnel =
     (let link = dorp tunnel;
          tunnelName = (if tname tunnel \<noteq> [] then tname tunnel
                        else [0x96A7, 0x9053] @ number_text tunnelId)
      in if link \<noteq> []
         then friendly_head @ tunnelName @ friendly_link @ link @ friendly_link_end
         else friendly_head @ tunnelName @ friendly_plain_end)"

text \<open>
  The body of the async closure after \<^verbatim>\<open>await getTunnelById(tunnelId)\<close>: the line it
  hands to \<^verbatim>\<open>logStore.addLog\<close>, or \<open>None\<close> where it returns without adding one.
  \<open>stamp\<close> is the text of the clock at that moment.
\<close>

definition synthesize :: "int \<Rightarrow> Tunnel option \<Rightarrow> jsstring \<Rightarrow> LogMessage option" where
  "synthesize tunnelId found stamp =
     (case found of
        None \<Rightarrow> None
      | Some tunnel \<Rightarrow>
          (let tunnelType = map_option toLowerCase (ttype tunnel) in
           if tunnelType \<noteq> Some (ascii ''http'') \<and> tunnelType \<noteq> Some (ascii ''https'')
           then None
           else Some \<lparr>tunnel_id = tunnelId, message = friendlyMessage tunnelId tunnel,
                      timestamp = stamp\<rparr>))"

subsection \<open>The listener\<close>

datatype toast = ToastSuccess | ToastError

datatype sound = SoundSuccess | SoundError

text \<open>
  The refs of the hook, and what it has done so far: the closures it has started and
  that have not finished, the toasts raised and the sounds played, in order.
\<close>

record Notifier =
  processedLogsCount :: nat
  notifiedSuccess :: "int set"
  notifiedError :: "int set"
  successLogAdded :: "int set"
  tunnelCache :: TunnelCache
  pending :: "lookup list"
  toasts :: "toast list"
  sounds :: "sound list"

text \<open>
  What the listener reads from outside when it runs: the active tab, the stored
  \<^verbatim>\<open>tunnelSoundEnabled\<close> item and the clock.
\<close>

record Ambient =
  activeTab :: jsstring
  tunnelSoundEnabled :: "jsstring option"
  clock :: int

definition hasLauncherSuccessLog :: "LogMessage list \<Rightarrow> int \<Rightarrow> bool" where
  "hasLauncherSuccessLog logs tunnelId =
     (\<exists>item \<in> set logs. tunnel_id item = tunnelId \<and> str_includes (message item) launcher_tag \<and>
        str_includes (message item) started_ok)"

definition playTunnelSound :: "sound \<Rightarrow> bool \<Rightarrow> Notifier \<Rightarrow> Notifier" where
  "playTunnelSound kind enabled s = (if \<not> enabled then s else s\<lparr>sounds := sounds s @ [kind]\<rparr>)"

text \<open>The body of the loop over \<^verbatim>\<open>newLogs\<close>, for one line.\<close>

definition processLog :: "Ambient \<Rightarrow> LogMessage list \<Rightarrow> Notifier \<Rightarrow> LogMessage \<Rightarrow> Notifier" where
  "processLog amb logs s log =
     (let tunnelId = tunnel_id log;
          msg = message log;
          has = hasLauncherSuccessLog logs tunnelId;
          soundEnabled = (tunnelSoundEnabled amb \<noteq> Some (ascii ''false''));
          s1 = (if str_includes msg process_started
                then s\<lparr>notifiedSuccess := notifiedSuccess s - {tunnelId},
                       notifiedError := notifiedError s - {tunnelId},
                       successLogAdded := successLogAdded s - {tunnelId}\<rparr>
                else s);
          s2 = (if str_includes msg mapping_ok \<and> \<not> has \<and> tunnelId \<notin> successLogAdded s1
                then s1\<lparr>successLogAdded := insert tunnelId (successLogAdded s1),
                        pending := pending s1 @ [getTunnelById_call (tunnelCache s1) (clock amb) tunnelId]\<rparr>
                else s1)
      in if activeTab amb = ascii ''tunnels'' then s2
         else if str_includes msg mapping_ok then
           (if tunnelId \<notin> notifiedSuccess s2
            then (playTunnelSound SoundSuccess soundEnabled
                    (s2\<lparr>notifiedSuccess := insert tunnelId (notifiedSuccess s2)\<rparr>))
                 \<lparr>toasts := toasts s2 @ [ToastSuccess]\<rparr>
            else s2)
         else if str_includes msg start_failed then
           (if tunnelId \<notin> notifiedError s2
            then (playTunnelSound SoundError soundEnabled
                    (s2\<lparr>notifiedError := insert tunnelId (notifiedError s2)\<rparr>))
                 \<lparr>toasts := toasts s2 @ [ToastError]\<rparr>
            else s2)
         else s2)"

text \<open>The callback given to \<^verbatim>\<open>logStore.subscribe\<close>, called with a copy of the buffer.\<close>

definition onLogs :: "Ambient \<Rightarrow> LogMessage list \<Rightarrow> Notifier \<Rightarrow> Notifier" where
  "onLogs amb logs s =
     (if length logs = 0 then s
      else let startIndex = processedLogsCount s in
        if startIndex \<ge> length logs then s
        else foldl (processLog amb logs) (s\<lparr>processedLogsCount := length logs\<rparr>) (drop startIndex logs))"

subsection \<open>The store and its listener together\<close>

record App =
  logs :: "LogMessage list"
  notifier :: Notifier

definition notifyListeners :: "Ambient \<Rightarrow> App \<Rightarrow> App" where
  "notifyListeners amb app = app\<lparr>notifier := onLogs amb (logs app) (notifier app)\<rparr>"

definition addLog :: "Ambient \<Rightarrow> LogMessage \<Rightarrow> App \<Rightarrow> App" where
  "addLog amb log app = notifyListeners amb (app\<lparr>logs := pushLog (logs app) log\<rparr>)"

definition clearLogs :: "Ambient \<Rightarrow> App \<Rightarrow> App" where
  "clearLogs amb app = notifyListeners amb (app\<lparr>logs := []\<rparr>)"

text \<open>
  A started closure runs on: the \<open>i\<close>-th of the pending ones, with the outcome of its
  \<^verbatim>\<open>fetchTunnels\<close> call (not looked at by a \<open>Cached\<close> one) and the text of the clock.
\<close>

definition resume :: "Ambient \<Rightarrow> nat \<Rightarrow> Tunnel list outcome \<Rightarrow> jsstring \<Rightarrow> App \<Rightarrow> App" where
  "resume amb i fetchTunnels stamp app =
     (let s = notifier app in
      if i \<ge> length (pending s) then app
      else
        let tk = pending s ! i;
            (found, cache) = getTunnelById_settle tk fetchTunnels (tunnelCache s);
            app1 = app\<lparr>notifier := s\<lparr>pending := take i (pending s) @ drop (Suc i) (pending s),
                                       tunnelCache := cache\<rparr>\<rparr>
        in case synthesize (lookup_tunnel tk) found stamp of
             None \<Rightarrow> app1
           | Some line \<Rightarrow> addLog amb line app1)"

text \<open>
  What can happen to the store and the hook: the native layer emits a line, a started
  closure runs on, the user clears the log, the hook subscribes again (the active tab
  changed).
\<close>

datatype event =
    NativeLog LogMessage
  | Resume nat "Tunnel list outcome" jsstring
  | ClearLogs
  | Subscribe

fun step :: "App \<Rightarrow> Ambient \<times> event \<Rightarrow> App" where
  "step app (amb, NativeLog log) = addLog amb log app"
| "step app (amb, Resume i fetchTunnels stamp) = resume amb i fetchTunnels stamp app"
| "step app (amb, ClearLogs) = clearLogs amb app"
| "step app (amb, Subscribe) = notifyListeners amb app"

definition run :: "App \<Rightarrow> (Ambient \<times> event) list \<Rightarrow> App" where
  "run app evs = foldl step app evs"

definition fresh :: App where
  "fresh = \<lparr>logs = [],
            notifier = \<lparr>processedLogsCount = 0, notifiedSuccess = {}, notifiedError = {},
                        successLogAdded = {}, tunnelCache = \<lparr>updatedAt = 0, cached = []\<rparr>,
                        pending = [], toasts = [], sounds = []\<rparr>\<rparr>"

text \<open>The number of success toasts raised so far.\<close>

definition successCount :: "Notifier \<Rightarrow> nat" where
  "successCount s = length (filter (\<lambda>t. t = ToastSuccess) (toasts s))"

definition successToasts :: "App \<Rightarrow> nat" where
  "successToasts app = successCount (notifier app)"

section \<open>Auto-start (the hook useAutoStartTunnels)\<close>

text \<open>
  Where a call of \<^verbatim>\<open>autoStart\<close> stands: waiting for the stored list, waiting the
  1000 ms (holding \<^verbatim>\<open>autoStartSet\<close> and \<^verbatim>\<open>currentTunnels\<close>), waiting the 500 ms after a
  toggle (holding also \<^verbatim>\<open>currentRunningTunnels\<close> and the sessions the loop has yet to
  visit), or returned.
\<close>

datatype phase =
    AwaitingList
  | AwaitingDelay "jsstring set" "UnifiedTunnel list"
  | AwaitingThrottle "jsstring set" "jsstring set" "UnifiedTunnel list"
  | Returned

text \<open>
  The refs of the hook, the dependencies of its last effect run, the calls of
  \<^verbatim>\<open>autoStart\<close> made so far, and the \<^verbatim>\<open>toggle(tunnel, true)\<close> calls issued, each with the
  number of the call of \<^verbatim>\<open>autoStart\<close> that issued it.
\<close>

record AutoStart =
  hasAutoStartedRef :: bool
  tunnelsRef :: "UnifiedTunnel list"
  runningTunnelsRef :: "jsstring set"
  deps :: "(bool \<times> nat) option"
  calls :: "phase list"
  toggled :: "(nat \<times> UnifiedTunnel) list"

definition mount :: AutoStart where
  "mount = \<lparr>hasAutoStartedRef = False, tunnelsRef = [], runningTunnelsRef = {}, deps = None,
            calls = [], toggled = []\<rparr>"

text \<open>The body of the effect, up to the first \<^verbatim>\<open>await\<close> of \<^verbatim>\<open>autoStart\<close>.\<close>

definition effect :: "bool \<Rightarrow> UnifiedTunnel list \<Rightarrow> AutoStart \<Rightarrow> AutoStart" where
  "effect isLoading catalog st =
     (if hasAutoStartedRef st then st
      else if isLoading \<or> length catalog = 0 then st
      else st\<lparr>calls := calls st @ [AwaitingList]\<rparr>)"

text \<open>
  A render with the given props: the refs are brought up to date, and the effect runs
  when \<^verbatim>\<open>loading\<close> or \<^verbatim>\<open>tunnels.length\<close> differs from the last run (or on the first).
\<close>

definition render :: "bool \<Rightarrow> UnifiedTunnel list \<Rightarrow> jsstring set \<Rightarrow> AutoStart \<Rightarrow> AutoStart" where
  "render isLoading catalog running st =
     (let st1 = st\<lparr>tunnelsRef := catalog, runningTunnelsRef := running\<rparr> in
      if deps st1 = Some (isLoading, length catalog) then st1
      else effect isLoading catalog (st1\<lparr>deps := Some (isLoading, length catalog)\<rparr>))"

definition markDone :: "nat \<Rightarrow> AutoStart \<Rightarrow> AutoStart" where
  "markDone i st = st\<lparr>hasAutoStartedRef := True, calls := (calls st)[i := Returned]\<rparr>"

text \<open>
  \<^verbatim>\<open>autoStart\<close> after the stored list has arrived (\<open>None\<close>: the read failed, which the
  \<^verbatim>\<open>catch\<close> block takes). \<open>usertoken\<close> is \<^verbatim>\<open>getStoredUser()?.usertoken\<close>.
\<close>

definition listSettled ::
  "nat \<Rightarrow> (jsstring \<times> int) list option \<Rightarrow> jsstring option \<Rightarrow> AutoStart \<Rightarrow> AutoStart" where
  "listSettled i answer usertoken st =
     (if i \<ge> length (calls st) \<or> calls st ! i \<noteq> AwaitingList then st
      else case answer of
        None \<Rightarrow> markDone i st
      | Some autoStartList \<Rightarrow>
          if length autoStartList = 0 then markDone i st
          else
            let currentTunnels = tunnelsRef st;
                hasApiTunnels = (\<exists>(tunnelType, tunnelId) \<in> set autoStartList. tunnelType = ascii ''api'')
            in if hasApiTunnels \<and> (usertoken = None \<or> usertoken = Some [])
               then markDone i st
               else
                 let autoStartSet =
                       set (map (\<lambda>(tunnelType, tunnelId). tunnelType @ ascii ''_'' @ number_text tunnelId)
                              autoStartList)
                 in st\<lparr>calls := (calls st)[i := AwaitingDelay autoStartSet currentTunnels]\<rparr>)"

text \<open>
  The loop over \<^verbatim>\<open>currentTunnels\<close>, from the sessions not yet visited up to the next
  500 ms wait. \<open>throws\<close> tells of which sessions the \<^verbatim>\<open>toggle\<close> call throws.
\<close>

fun autoStartLoop ::
  "(UnifiedTunnel \<Rightarrow> bool) \<Rightarrow> nat \<Rightarrow> jsstring set \<Rightarrow> jsstring set \<Rightarrow> UnifiedTunnel list \<Rightarrow>
     AutoStart \<Rightarrow> AutoStart" where
  "autoStartLoop throws i autoStartSet currentRunningTunnels [] st = markDone i st"
| "autoStartLoop throws i autoStartSet currentRunningTunnels (tunnel # rest) st =
     (let key = tunnelKey tunnel in
      if key \<notin> autoStartSet then autoStartLoop throws i autoStartSet currentRunningTunnels rest st
      else if key \<in> currentRunningTunnels
      then autoStartLoop throws i autoStartSet currentRunningTunnels rest st
      else
        let st1 = st\<lparr>toggled := toggled st @ [(i, tunnel)]\<rparr> in
        if throws tunnel then markDone i st1
        else st1\<lparr>calls := (calls st1)[i := AwaitingThrottle autoStartSet currentRunningTunnels rest]\<rparr>)"

text \<open>A timer of call \<open>i\<close> fires: the 1000 ms wait, or a 500 ms wait inside the loop.\<close>

definition timerFired :: "(UnifiedTunnel \<Rightarrow> bool) \<Rightarrow> nat \<Rightarrow> AutoStart \<Rightarrow> AutoStart" where
  "timerFired throws i st =
     (if i \<ge> length (calls st) then st
      else case calls st ! i of
        AwaitingDelay autoStartSet currentTunnels \<Rightarrow>
          autoStartLoop throws i autoStartSet (runningTunnelsRef st) currentTunnels st
      | AwaitingThrottle autoStartSet currentRunningTunnels rest \<Rightarrow>
          autoStartLoop throws i autoStartSet currentRunningTunnels rest st
      | AwaitingList \<Rightarrow> st
      | Returned \<Rightarrow> st)"

datatype moment =
    Render bool "UnifiedTunnel list" "jsstring set"
  | ListSettled nat "(jsstring \<times> int) list option" "jsstring option"
  | TimerFired nat

fun advance :: "(UnifiedTunnel \<Rightarrow> bool) \<Rightarrow> AutoStart \<Rightarrow> moment \<Rightarrow> AutoStart" where
  "advance throws st (Render isLoading catalog running) = render isLoading catalog running st"
| "advance throws st (ListSettled i answer usertoken) = listSettled i answer usertoken st"
| "advance throws st (TimerFired i) = timerFired throws i st"

section \<open>Notions used to state the properties\<close>

text \<open>The list a catalog source contributes to the load: what it returned, or nothing.\<close>

definition settled :: "'a list promise \<Rightarrow> 'a list" where
  "settled p = (case p of Resolves d xs \<Rightarrow> xs | Rejects d e \<Rightarrow> [] | Pending \<Rightarrow> [])"

text \<open>An event that is a line emitted by the native layer.\<close>

fun native :: "event \<Rightarrow> bool" where
  "native (NativeLog l) = True"
| "native (Resume i r stamp) = False"
| "native ClearLogs = False"
| "native Subscribe = False"

text \<open>
  \<open>silent s s'\<close>: between \<open>s\<close> and \<open>s'\<close> the listener has processed nothing. The cursor
  and the dedup sets are the same, no toast was raised, no sound played, and no closure
  was started.
\<close>

definition silent :: "Notifier \<Rightarrow> Notifier \<Rightarrow> bool" where
  "silent s s' \<longleftrightarrow>
     processedLogsCount s' = processedLogsCount s \<and> toasts s' = toasts s \<and> sounds s' = sounds s \<and>
     notifiedSuccess s' = notifiedSuccess s \<and> notifiedError s' = notifiedError s \<and>
     successLogAdded s' = successLogAdded s \<and> length (pending s') \<le> length (pending s)"



text \<open>The session a call of \<^verbatim>\<open>getTunnelById\<close> returns in the end.\<close>

definition resolved :: "lookup \<Rightarrow> Tunnel list outcome \<Rightarrow> TunnelCache \<Rightarrow> Tunnel option" where
  "resolved tk fetchTunnels current = fst (getTunnelById_settle tk fetchTunnels current)"

text \<open>A session whose protocol, in lower case, is \<^verbatim>\<open>http\<close> or \<^verbatim>\<open>https\<close>.\<close>

definition web_protocol :: "Tunnel \<Rightarrow> bool" where
  "web_protocol tunnel \<longleftrightarrow>
     map_option toLowerCase (ttype tunnel) = Some (ascii ''http'') \<or>
     map_option toLowerCase (ttype tunnel) = Some (ascii ''https'')"

text \<open>
  Lines of session \<open>X\<close>. A line with the launch marker opens an epoch of \<open>X\<close>, whatever
  else it carries. A success line of an epoch carries the success marker and does not
  open another epoch.
\<close>

definition launch_line :: "int \<Rightarrow> LogMessage \<Rightarrow> bool" where
  "launch_line X l \<longleftrightarrow> tunnel_id l = X \<and> str_includes (message l) process_started"

definition success_line :: "int \<Rightarrow> LogMessage \<Rightarrow> bool" where
  "success_line X l \<longleftrightarrow>
     tunnel_id l = X \<and> str_includes (message l) mapping_ok \<and>
     \<not> str_includes (message l) process_started"

text \<open>The lines the native layer emits over a stretch of events, in order.\<close>

fun lines_of :: "(Ambient \<times> event) list \<Rightarrow> LogMessage list" where
  "lines_of [] = []"
| "lines_of ((amb, NativeLog l) # evs) = l # lines_of evs"
| "lines_of ((amb, Resume i r stamp) # evs) = lines_of evs"
| "lines_of ((amb, ClearLogs) # evs) = lines_of evs"
| "lines_of ((amb, Subscribe) # evs) = lines_of evs"

text \<open>
  What may happen between the launch line of \<open>X\<close> and its first success line: the hook
  subscribes again, or the native layer emits a line that carries no success marker and
  is not a launch line of \<open>X\<close>.
\<close>

fun bystander :: "int \<Rightarrow> event \<Rightarrow> bool" where
  "bystander X (NativeLog l) =
     (\<not> str_includes (message l) mapping_ok \<and>
      \<not> (tunnel_id l = X \<and> str_includes (message l) process_started))"
| "bystander X (Resume i r stamp) = False"
| "bystander X ClearLogs = False"
| "bystander X Subscribe = True"

text \<open>
  What may happen later in the epoch of \<open>X\<close>: the hook subscribes again, the native
  layer emits a line of \<open>X\<close> that does not open another epoch (a further success line,
  say), or a line of another session without the success marker.
\<close>

fun absorbed :: "int \<Rightarrow> event \<Rightarrow> bool" where
  "absorbed X (NativeLog l) =
     (if tunnel_id l = X then \<not> str_includes (message l) process_started
      else \<not> str_includes (message l) mapping_ok)"
| "absorbed X (Resume i r stamp) = False"
| "absorbed X ClearLogs = False"
| "absorbed X Subscribe = True"

text \<open>
  \<open>carries app ls app'\<close>: from \<open>app\<close> to \<open>app'\<close> the buffer has gained the lines \<open>ls\<close>, the
  hook is in step with it, and no success toast was raised, no closure started or
  finished.
\<close>

definition carries :: "App \<Rightarrow> LogMessage list \<Rightarrow> App \<Rightarrow> bool" where
  "carries app ls app' \<longleftrightarrow>
     logs app' = logs app @ ls \<and>
     processedLogsCount (notifier app') = length (logs app') \<and>
     successCount (notifier app') = successCount (notifier app) \<and>
     pending (notifier app') = pending (notifier app) \<and>
     tunnelCache (notifier app') = tunnelCache (notifier app)"

text \<open>
  The friendly lines that the closures running on over a stretch of events hand to
  \<^verbatim>\<open>logStore.addLog\<close>, in order.
\<close>

fun synthesized :: "App \<Rightarrow> (Ambient \<times> event) list \<Rightarrow> LogMessage list" where
  "synthesized app [] = []"
| "synthesized app ((amb, NativeLog l) # evs) = synthesized (step app (amb, NativeLog l)) evs"
| "synthesized app ((amb, Resume i r stamp) # evs) =
     (if i < length (pending (notifier app))
      then (case synthesize (lookup_tunnel (pending (notifier app) ! i))
                   (resolved (pending (notifier app) ! i) r (tunnelCache (notifier app))) stamp of
              None \<Rightarrow> [] | Some line \<Rightarrow> [line])
      else []) @ synthesized (step app (amb, Resume i r stamp)) evs"
| "synthesized app ((amb, ClearLogs) # evs) = synthesized (step app (amb, ClearLogs)) evs"
| "synthesized app ((amb, Subscribe) # evs) = synthesized (step app (amb, Subscribe)) evs"

text \<open>
  A session answers as running in the fan-out of \<^verbatim>\<open>loadTunnels\<close>: its query resolves
  to true before the 3000 ms timer.
\<close>

definition reportsRunning :: "StatusEnv \<Rightarrow> UnifiedTunnel \<Rightarrow> bool" where
  "reportsRunning env tunnel =
     (case withTimeout (queryRunning env tunnel) 3000 of
        Resolves d isRunning \<Rightarrow> isRunning | Rejects d e \<Rightarrow> False | Pending \<Rightarrow> False)"

text \<open>
  Modelled from the spec: the native layer that emits the log lines is outside the
  sources at hand. A line it emits for a session carries that session's numeric id as
  its \<^verbatim>\<open>tunnel_id\<close> (the spec's LogLine has a numeric session id and nothing that tells
  the kind).
\<close>

definition logLineOf :: "UnifiedTunnel \<Rightarrow> jsstring \<Rightarrow> jsstring \<Rightarrow> LogMessage" where
  "logLineOf tunnel msg stamp =
     \<lparr>tunnel_id = (case tunnel of Api d \<Rightarrow> tid d | Custom d \<Rightarrow> cid d), message = msg,
      timestamp = stamp\<rparr>"

section \<open>Sessions, lines and surroundings used as examples\<close>

definition home :: Ambient where
  "home = \<lparr>activeTab = ascii ''home'', tunnelSoundEnabled = None, clock = 1000000\<rparr>"

definition emitted :: "int \<Rightarrow> jsstring \<Rightarrow> LogMessage" where
  "emitted X msg = \<lparr>tunnel_id = X, message = msg, timestamp = []\<rparr>"

definition web7 :: Tunnel where
  "web7 = \<lparr>tid = 7, tname = ascii ''web'', ttype = Some (ascii ''HTTP''), dorp = ascii ''a.example.com''\<rparr>"

definition tcp7 :: Tunnel where
  "tcp7 = \<lparr>tid = 7, tname = ascii ''game'', ttype = Some (ascii ''tcp''), dorp = ascii ''25565''\<rparr>"

text \<open>An http session whose name is the launch marker.\<close>

definition odd7 :: Tunnel where
  "odd7 = \<lparr>tid = 7, tname = process_started, ttype = Some (ascii ''http''), dorp = []\<rparr>"


definition custom7 :: CustomTunnel where
  "custom7 = \<lparr>cid = 7\<rparr>"

definition idle :: TunnelListState where
  "idle = \<lparr>tunnels = [], loading = True, error = [], runningTunnels = {}, tunnelListCache = []\<rparr>"

definition unreachable :: StatusEnv where
  "unreachable = \<lparr>invoke_is_frpc_running = (\<lambda>i. Pending), isCustomTunnelRunning = (\<lambda>i. Pending)\<rparr>"

text \<open>A store whose buffer is full, with the hook in step with it.\<close>

definition full :: App where
  "full = \<lparr>logs = replicate 5000 (emitted 1 []), notifier = (notifier fresh)\<lparr>processedLogsCount := 5000\<rparr>\<rparr>"

text \<open>
  A fresh store after a success line of session 7, and the same after the closure has
  run on and found the session to be a tcp one.
\<close>

definition waiting7 :: App where
  "waiting7 = addLog home (emitted 7 mapping_ok) fresh"


section \<open>Properties of strings\<close>

lemma starts_at_iff: "starts_at t s \<longleftrightarrow> (\<exists>q. s = t @ q)"
  by (induction t s rule: starts_at.induct) auto

lemma includes_iff: "str_includes s t \<longleftrightarrow> (\<exists>p q. s = p @ t @ q)"
proof (induction s)
  case Nil
  show ?case by (auto simp: starts_at_iff)
next
  case (Cons c s)
  show ?case
  proof
    assume "str_includes (c # s) t"
    then consider "starts_at t (c # s)" | "str_includes s t" by auto
    then show "\<exists>p q. c # s = p @ t @ q"
    proof cases
      case 1
      then obtain q where "c # s = t @ q" by (auto simp: starts_at_iff)
      then have "c # s = [] @ t @ q" by simp
      then show ?thesis by blast
    next
      case 2
      then obtain p q where "s = p @ t @ q" using Cons.IH by blast
      then have "c # s = (c # p) @ t @ q" by simp
      then show ?thesis by blast
    qed
  next
    assume "\<exists>p q. c # s = p @ t @ q"
    then obtain p q where pq: "c # s = p @ t @ q" by blast
    show "str_includes (c # s) t"
    proof (cases p)
      case Nil
      with pq have "starts_at t (c # s)" by (auto simp: starts_at_iff)
      then show ?thesis by simp
    next
      case (Cons a p')
      with pq have "s = p' @ t @ q" by simp
      then have "str_includes s t" using Cons.IH by blast
      then show ?thesis by simp
    qed
  qed
qed

lemma str_includes_across:
  assumes "q \<notin> set m"
  shows "str_includes (u @ q # v) m \<longleftrightarrow> str_includes u m \<or> str_includes v m"
proof
  assume "str_includes (u @ q # v) m"
  then obtain p s where eq: "u @ q # v = p @ m @ s" by (auto simp: includes_iff)
  then consider w where "u = p @ w" "w @ q # v = m @ s" | w where "u @ w = p" "q # v = w @ m @ s"
    by (auto simp: append_eq_append_conv2)
  then show "str_includes u m \<or> str_includes v m"
  proof cases
    case 1
    from 1(2) consider w' where "w = m @ w'" | w' where "w @ w' = m" "q # v = w' @ s"
      by (auto simp: append_eq_append_conv2)
    then show ?thesis
    proof cases
      case 1
      with \<open>u = p @ w\<close> have "u = p @ m @ w'" by simp
      then show ?thesis by (auto simp: includes_iff)
    next
      case 2
      show ?thesis
      proof (cases w')
        case Nil
        with 2 \<open>u = p @ w\<close> have "u = p @ m @ []" by simp
        then show ?thesis unfolding includes_iff by blast
      next
        case (Cons a w'')
        with 2 have "q \<in> set m" by auto
        with assms show ?thesis by simp
      qed
    qed
  next
    case 2
    show ?thesis
    proof (cases w)
      case Nil
      with 2 have "q # v = m @ s" by simp
      with assms have "m = []" by (cases m) auto
      then have "u = [] @ m @ u" by simp
      then show ?thesis unfolding includes_iff by blast
    next
      case (Cons a w')
      with 2 have "v = w' @ m @ s" by simp
      then show ?thesis unfolding includes_iff by blast
    qed
  qed
next
  assume "str_includes u m \<or> str_includes v m"
  then show "str_includes (u @ q # v) m"
  proof
    assume "str_includes u m"
    then obtain p s where "u = p @ m @ s" by (auto simp: includes_iff)
    then have "u @ q # v = p @ m @ (s @ q # v)" by simp
    then show ?thesis unfolding includes_iff by blast
  next
    assume "str_includes v m"
    then obtain p s where "v = p @ m @ s" by (auto simp: includes_iff)
    then have "u @ q # v = (u @ q # p) @ m @ s" by simp
    then show ?thesis unfolding includes_iff by blast
  qed
qed

lemma str_includes_hd:
  assumes "str_includes s m" "m \<noteq> []"
  shows "hd m \<in> set s"
proof -
  obtain p q where "s = p @ m @ q" using assms(1) by (auto simp: includes_iff)
  with assms(2) show ?thesis by (cases m) auto
qed

lemma set_digits: "set (digits n) \<subseteq> {48..57}"
proof (induction n rule: digits.induct)
  case (1 n)
  show ?case
  proof (cases "n < 10")
    case True
    then show ?thesis by (subst digits.simps) auto
  next
    case False
    have "n mod 10 < 10" by simp
    then have "48 + n mod 10 \<in> {48..57}" by auto
    moreover have "digits n = digits (n div 10) @ [48 + n mod 10]"
      using False by (subst digits.simps) simp
    ultimately show ?thesis using 1 [OF False] by auto
  qed
qed

lemma set_number_text: "set (number_text i) \<subseteq> {45} \<union> {48..57}"
  using set_digits by (auto simp: number_text_def)

lemma friendly_without_launch_marker:
  assumes "\<not> str_includes (tname t) process_started" "\<not> str_includes (dorp t) process_started"
  shows "\<not> str_includes (friendlyMessage X t) process_started"
proof -
  let ?m = process_started
  have q: "34 \<notin> set ?m" and hd: "hd ?m = 102" and ne: "?m \<noteq> []"
    by (simp_all add: process_started_def ascii_def)
  define nm where "nm = (if tname t \<noteq> [] then tname t else [0x96A7, 0x9053] @ number_text X)"
  have nm: "\<not> str_includes nm ?m"
  proof (cases "tname t \<noteq> []")
    case True
    then show ?thesis using assms(1) by (simp add: nm_def)
  next
    case False
    have "102 \<notin> set ([0x96A7, 0x9053] @ number_text X)" using set_number_text [of X] by auto
    then have "\<not> str_includes ([0x96A7, 0x9053] @ number_text X) ?m"
      using str_includes_hd [OF _ ne] hd by metis
    then show ?thesis using False by (simp add: nm_def)
  qed
  let ?h = "ascii ''[I] [ChmlFrpLauncher] '' @ [0x96A7, 0x9053]"
  let ?k = "[0x542F, 0x52A8, 0x6210, 0x529F, 0xFF0C, 0x60A8, 0x53EF, 0x4EE5, 0x901A, 0x8FC7]"
  have h: "\<not> str_includes ?h ?m" "\<not> str_includes ?k ?m"
      "\<not> str_includes [0x8BBF, 0x95EE, 0x3002] ?m" "\<not> str_includes [0x542F, 0x52A8, 0x6210, 0x529F, 0x3002] ?m"
    by (simp_all add: process_started_def ascii_def)
  have with_link: "friendly_head @ nm @ friendly_link @ dorp t @ friendly_link_end =
      ?h @ 34 # (nm @ 34 # (?k @ 34 # (dorp t @ 34 # [0x8BBF, 0x95EE, 0x3002])))"
    by (simp add: friendly_head_def friendly_link_def friendly_link_end_def)
  have plain: "friendly_head @ nm @ friendly_plain_end =
      ?h @ 34 # (nm @ 34 # [0x542F, 0x52A8, 0x6210, 0x529F, 0x3002])"
    by (simp add: friendly_head_def friendly_plain_end_def)
  have "\<not> str_includes (friendly_head @ nm @ friendly_link @ dorp t @ friendly_link_end) ?m"
    unfolding with_link using h nm assms(2) by (simp only: str_includes_across [OF q] simp_thms)
  moreover have "\<not> str_includes (friendly_head @ nm @ friendly_plain_end) ?m"
    unfolding plain using h nm by (simp only: str_includes_across [OF q] simp_thms)
  ultimately show ?thesis by (simp add: friendlyMessage_def Let_def nm_def)
qed

section \<open>The log buffer is bounded and evicts from the front\<close>

lemma pushLog_eq:
  "pushLog buf l = slice_last maxLogs (buf @ [l])"
  by (simp add: pushLog_def trimLogs_def slice_last_def)

lemma slice_last_snoc:
  assumes "0 < n"
  shows "slice_last n (slice_last n xs @ [x]) = slice_last n (xs @ [x])"
proof (cases "length xs \<le> n")
  case True
  then show ?thesis by (simp add: slice_last_def)
next
  case False
  with assms have "length xs - n + 1 = Suc (length xs) - n" by arith
  with False assms show ?thesis by (simp add: slice_last_def)
qed

lemma foldl_pushLog_eq:
  "foldl pushLog (slice_last maxLogs old) new = slice_last maxLogs (old @ new)"
proof (induction new arbitrary: old)
  case Nil
  show ?case by simp
next
  case (Cons l new)
  have "pushLog (slice_last maxLogs old) l = slice_last maxLogs (old @ [l])"
    by (simp add: pushLog_eq slice_last_snoc maxLogs_def)
  then show ?case using Cons.IH [of "old @ [l]"] by simp
qed

section \<open>Promises that always settle\<close>

lemma or_else_not_rejects: "or_else p v \<noteq> Rejects d e"
  by (cases p) (simp_all add: or_else_def)

lemma withTimeout_resolves: "\<exists>d b. withTimeout p t = Resolves d b \<and> d \<le> t"
  by (cases p) (auto simp: withTimeout_def)

lemma statusTask_resolves: "\<exists>d k. statusTask env t = Resolves d k \<and> d \<le> 3000"
proof -
  obtain d b where "withTimeout (queryRunning env t) 3000 = Resolves d b" "d \<le> 3000"
    using withTimeout_resolves by blast
  then show ?thesis by (simp add: statusTask_def and_then_def)
qed

lemma promise_all_resolves:
  assumes "\<And>p. p \<in> set ps \<Longrightarrow> \<exists>d v. p = Resolves d v \<and> d \<le> t"
  shows "\<exists>d vs. promise_all ps = Resolves d vs \<and> d \<le> t \<and> length vs = length ps"
  using assms
proof (induction ps)
  case Nil
  show ?case by simp
next
  case (Cons p ps)
  have "\<exists>d v. p = Resolves d v \<and> d \<le> t" using Cons.prems [of p] by simp
  then obtain d v where p: "p = Resolves d v" "d \<le> t" by blast
  obtain d' vs where ps: "promise_all ps = Resolves d' vs" "d' \<le> t" "length vs = length ps"
    using Cons by auto
  show ?case using p ps by (simp add: both_def and_then_def)
qed

section \<open>Composite keys\<close>

lemma ascii_api: "ascii ''api_'' = [97, 112, 105, 95]"
  by (simp add: ascii_def)

lemma ascii_custom: "ascii ''custom_'' = [99, 117, 115, 116, 111, 109, 95]"
  by (simp add: ascii_def)

lemma digits_nonempty: "digits n \<noteq> []"
  by (subst digits.simps) simp

lemma digits_inj: "digits n = digits m \<Longrightarrow> n = m"
proof (induction n arbitrary: m rule: digits.induct)
  case (1 n)
  show ?case
  proof (cases "n < 10")
    case True
    show ?thesis
    proof (cases "m < 10")
      case True
      with \<open>n < 10\<close> 1(2) show ?thesis by (simp add: digits.simps)
    next
      case False
      then have "digits m = digits (m div 10) @ [48 + m mod 10]" by (subst digits.simps) simp
      moreover have "digits n = [48 + n]" using True by (subst digits.simps) simp
      ultimately show ?thesis using 1(2) digits_nonempty [of "m div 10"] by (cases "digits (m div 10)") auto
    qed
  next
    case False
    then have n: "digits n = digits (n div 10) @ [48 + n mod 10]" by (subst digits.simps) simp
    show ?thesis
    proof (cases "m < 10")
      case True
      then have "digits m = [48 + m]" by (subst digits.simps) simp
      then show ?thesis using n 1(2) digits_nonempty [of "n div 10"] by (cases "digits (n div 10)") auto
    next
      case F2: False
      then have m: "digits m = digits (m div 10) @ [48 + m mod 10]" by (subst digits.simps) simp
      from n m 1(2) have "digits (n div 10) = digits (m div 10)" "n mod 10 = m mod 10" by auto
      with 1(1) [OF False] have "n div 10 = m div 10" "n mod 10 = m mod 10" by auto
      then show ?thesis by (metis div_mult_mod_eq)
    qed
  qed
qed

lemma digits_hd: "hd (digits n) \<noteq> 45"
proof (induction n rule: digits.induct)
  case (1 n)
  show ?case
  proof (cases "n < 10")
    case True
    then show ?thesis by (subst digits.simps) simp
  next
    case False
    then have "digits n = digits (n div 10) @ [48 + n mod 10]" by (subst digits.simps) simp
    then show ?thesis using 1 [OF False] digits_nonempty [of "n div 10"] by simp
  qed
qed

lemma number_text_inj: "number_text i = number_text j \<Longrightarrow> i = j"
proof -
  assume eq: "number_text i = number_text j"
  have neg: "digits a \<noteq> 45 # digits b" for a b
    using digits_hd [of a] by (cases "digits a") auto
  show ?thesis
  proof (cases "i < 0")
    case True
    show ?thesis
    proof (cases "j < 0")
      case True
      with \<open>i < 0\<close> eq have "nat (- i) = nat (- j)" by (auto simp: number_text_def dest: digits_inj)
      with True \<open>i < 0\<close> show ?thesis by simp
    next
      case False
      with True eq have "45 # digits (nat (- i)) = digits (nat j)" by (simp add: number_text_def)
      with neg [of "nat j" "nat (- i)"] show ?thesis by simp
    qed
  next
    case False
    show ?thesis
    proof (cases "j < 0")
      case True
      with False eq have "digits (nat i) = 45 # digits (nat (- j))" by (simp add: number_text_def)
      with neg [of "nat i" "nat (- j)"] show ?thesis by simp
    next
      case F2: False
      with False eq have "nat i = nat j" by (auto simp: number_text_def dest: digits_inj)
      with False F2 show ?thesis by simp
    qed
  qed
qed

lemma tunnelKey_eq:
  "tunnelKey t = tunnelKey t' \<longleftrightarrow>
     (case t of
        Api a \<Rightarrow> (case t' of Api b \<Rightarrow> tid a = tid b | Custom c \<Rightarrow> False)
      | Custom c \<Rightarrow> (case t' of Api b \<Rightarrow> False | Custom c' \<Rightarrow> cid c = cid c'))"
  by (auto simp: tunnelKey_def ascii_api ascii_custom split: UnifiedTunnel.splits dest: number_text_inj)


section \<open>The status queries of the process controller\<close>

text \<open>
  C8. None of the three status queries hands a failure on to its caller: whatever the
  IPC call does, the query never rejects, and where the IPC call rejects the query
  resolves to \<open>False\<close> (\<^verbatim>\<open>isTunnelRunning\<close>), to the empty list
  (\<^verbatim>\<open>getRunningTunnels\<close>) and to null (\<^verbatim>\<open>resolveDomainToIp\<close>).
\<close>

theorem status_queries_never_fail:
  "isTunnelRunning ipc tunnelId \<noteq> Rejects d e \<and>
   getRunningTunnels answer \<noteq> Rejects d e \<and>
   resolveDomainToIp ipc2 domain \<noteq> Rejects d e \<and>
   (ipc tunnelId = Rejects d' e' \<longrightarrow> isTunnelRunning ipc tunnelId = Resolves d' False) \<and>
   (answer = Rejects d' e' \<longrightarrow> getRunningTunnels answer = Resolves d' []) \<and>
   (ipc2 domain = Rejects d' e' \<longrightarrow> resolveDomainToIp ipc2 domain = Resolves d' None)"
proof -
  have "isTunnelRunning ipc tunnelId \<noteq> Rejects d e"
    unfolding isTunnelRunning_def by (rule or_else_not_rejects)
  moreover have "getRunningTunnels answer \<noteq> Rejects d e"
    unfolding getRunningTunnels_def by (rule or_else_not_rejects)
  moreover have "resolveDomainToIp ipc2 domain \<noteq> Rejects d e"
    unfolding resolveDomainToIp_def by (rule or_else_not_rejects)
  moreover have "ipc tunnelId = Rejects d' e' \<longrightarrow> isTunnelRunning ipc tunnelId = Resolves d' False"
    by (simp add: isTunnelRunning_def or_else_def)
  moreover have "answer = Rejects d' e' \<longrightarrow> getRunningTunnels answer = Resolves d' []"
    by (simp add: getRunningTunnels_def or_else_def)
  moreover have "ipc2 domain = Rejects d' e' \<longrightarrow> resolveDomainToIp ipc2 domain = Resolves d' None"
    by (simp add: resolveDomainToIp_def or_else_def)
  ultimately show ?thesis by blast
qed

text \<open>C8 at a concrete input: each IPC call rejects after 40 ms.\<close>

theorem status_queries_never_fail_witness:
  "isTunnelRunning (\<lambda>i. Rejects 40 None) 7 = Resolves 40 False \<and>
   getRunningTunnels (Rejects 40 None) = Resolves 40 [] \<and>
   resolveDomainToIp (\<lambda>n. Rejects 40 None) (ascii ''a.example.com'') = Resolves 40 None"
  using status_queries_never_fail [of "\<lambda>i. Rejects 40 None" 7 0 None "Rejects 40 None"
      "\<lambda>n. Rejects 40 None" "ascii ''a.example.com''" 40 None]
  by simp

section \<open>Loading the catalog\<close>

lemma status_phase_resolves:
  "\<exists>d ks. promise_all (map (statusTask env) ts) = Resolves d ks \<and> d \<le> 3000 \<and> length ks = length ts"
proof -
  have "\<exists>d vs. promise_all (map (statusTask env) ts) = Resolves d vs \<and> d \<le> 3000 \<and>
      length vs = length (map (statusTask env) ts)"
  proof (rule promise_all_resolves)
    fix p assume "p \<in> set (map (statusTask env) ts)"
    then obtain t where "p = statusTask env t" by auto
    then show "\<exists>d v. p = Resolves d v \<and> d \<le> 3000" using statusTask_resolves by simp
  qed
  then show ?thesis by simp
qed

lemma loadTunnels_settled:
  assumes "a \<noteq> Pending" "c \<noteq> Pending"
  shows "\<exists>d ks. loadTunnels a c env st =
     st\<lparr>loading := False, error := [], tunnels := map Api (settled a) @ map Custom (settled c),
        tunnelListCache := settled a, runningTunnels := set (List.map_filter (\<lambda>k. k) ks)\<rparr> \<and>
     promise_all (map (statusTask env) (map Api (settled a) @ map Custom (settled c))) = Resolves d ks"
proof -
  obtain da xs where a: "or_else a [] = Resolves da xs" "settled a = xs"
    using assms(1) by (cases a) (auto simp: or_else_def settled_def)
  obtain dc ys where c: "or_else c [] = Resolves dc ys" "settled c = ys"
    using assms(2) by (cases c) (auto simp: or_else_def settled_def)
  obtain d ks where ks: "promise_all (map (statusTask env) (map Api xs @ map Custom ys)) = Resolves d ks"
    using status_phase_resolves by blast
  have "loadTunnels a c env st =
     st\<lparr>loading := False, error := [], tunnels := map Api xs @ map Custom ys,
        tunnelListCache := xs, runningTunnels := set (List.map_filter (\<lambda>k. k) ks)\<rparr>"
    using ks by (simp add: loadTunnels_def a(1) c(1) both_def)
  with a c ks show ?thesis by auto
qed

text \<open>
  C7. Whatever the two catalog fetches do (each returns a list or fails), the load goes
  through: the catalog is the provisioned sessions in source order followed by the
  custom sessions in source order, a failed source counting as the empty list, no error
  is set and \<^verbatim>\<open>loading\<close> is off again.
\<close>

theorem catalog_fault_isolation:
  assumes "fetchTunnels \<noteq> Pending" and "getCustomTunnels \<noteq> Pending"
  shows "tunnels (loadTunnels fetchTunnels getCustomTunnels env st) =
           map Api (settled fetchTunnels) @ map Custom (settled getCustomTunnels) \<and>
         error (loadTunnels fetchTunnels getCustomTunnels env st) = [] \<and>
         \<not> loading (loadTunnels fetchTunnels getCustomTunnels env st) \<and>
         settled (Rejects d e :: Tunnel list promise) = [] \<and>
         settled (Rejects d e :: CustomTunnel list promise) = [] \<and>
         settled (Resolves d xs :: Tunnel list promise) = xs \<and>
         settled (Resolves d ys :: CustomTunnel list promise) = ys"
proof -
  obtain d ks where "loadTunnels fetchTunnels getCustomTunnels env st =
     st\<lparr>loading := False, error := [],
        tunnels := map Api (settled fetchTunnels) @ map Custom (settled getCustomTunnels),
        tunnelListCache := settled fetchTunnels, runningTunnels := set (List.map_filter (\<lambda>k. k) ks)\<rparr>"
    using loadTunnels_settled [OF assms] by blast
  then show ?thesis by (simp add: settled_def)
qed

section \<open>The periodic status pass\<close>

text \<open>
  C1. The body of the 5000 ms interval awaits each \<^verbatim>\<open>isTunnelRunning\<close> in turn and
  races none of them against a timer. With a provisioned session first in the catalog
  whose IPC call never settles, the pass never completes and the running set is not
  replaced, whereas the fan-out of \<^verbatim>\<open>loadTunnels\<close> over the same catalog settles within
  3000 ms.
\<close>

theorem periodic_pass_hangs:
  "checkRunningStatus (env\<lparr>invoke_is_frpc_running := \<lambda>i. Pending\<rparr>) (Api t # rest) = Pending \<and>
   periodicTick (env\<lparr>invoke_is_frpc_running := \<lambda>i. Pending\<rparr>) (st\<lparr>tunnels := Api t # rest\<rparr>)
     = st\<lparr>tunnels := Api t # rest\<rparr> \<and>
   (\<exists>d added. promise_all (map (statusTask (env\<lparr>invoke_is_frpc_running := \<lambda>i. Pending\<rparr>)) (Api t # rest))
       = Resolves d added \<and> d \<le> 3000)"
proof -
  let ?env = "env\<lparr>invoke_is_frpc_running := \<lambda>i. Pending\<rparr>"
  have q: "queryRunning ?env (Api t) = Pending"
    by (simp add: queryRunning_def isTunnelRunning_def or_else_def)
  then have c: "checkRunningStatus ?env (Api t # rest) = Pending"
    by (simp add: checkRunningStatus_def)
  then have "periodicTick ?env (st\<lparr>tunnels := Api t # rest\<rparr>) = st\<lparr>tunnels := Api t # rest\<rparr>"
    by (simp add: periodicTick_def)
  moreover have "\<exists>d added. promise_all (map (statusTask ?env) (Api t # rest)) = Resolves d added \<and> d \<le> 3000"
    using status_phase_resolves [of ?env "Api t # rest"] by blast
  ultimately show ?thesis using c by blast
qed

section \<open>The cursor of the listener\<close>

lemma processLog_cursor [simp]:
  "processedLogsCount (processLog amb snap s l) = processedLogsCount s"
  by (simp add: processLog_def Let_def playTunnelSound_def)

lemma foldl_processLog_cursor [simp]:
  "processedLogsCount (foldl (processLog amb snap) s ls) = processedLogsCount s"
  by (induction ls arbitrary: s) simp_all

lemma onLogs_cursor:
  "processedLogsCount (onLogs amb snap s) = max (processedLogsCount s) (length snap)"
  by (simp add: onLogs_def Let_def)

lemma onLogs_skip:
  "length snap \<le> processedLogsCount s \<Longrightarrow> onLogs amb snap s = s"
  by (simp add: onLogs_def Let_def)

lemma onLogs_one:
  "processedLogsCount s < length snap \<Longrightarrow>
   onLogs amb snap s =
     foldl (processLog amb snap) (s\<lparr>processedLogsCount := length snap\<rparr>) (drop (processedLogsCount s) snap)"
  by (auto simp add: onLogs_def Let_def)

lemma length_pushLog_le:
  "length buf \<le> maxLogs \<Longrightarrow> length (pushLog buf l) \<le> maxLogs"
  by (auto simp: pushLog_def trimLogs_def slice_last_def)

lemma pushLog_room:
  "length buf < maxLogs \<Longrightarrow> pushLog buf l = buf @ [l]"
  by (auto simp: pushLog_def trimLogs_def slice_last_def)

lemma set_pushLog: "set (pushLog buf l) \<subseteq> insert l (set buf)"
  by (auto simp: pushLog_def trimLogs_def slice_last_def dest: in_set_dropD)

lemma notifyListeners_skip:
  "length (logs app) \<le> processedLogsCount (notifier app) \<Longrightarrow> notifyListeners amb app = app"
  by (simp add: notifyListeners_def onLogs_skip)

lemma addLog_skip:
  assumes "length (logs app) \<le> maxLogs" "maxLogs \<le> processedLogsCount (notifier app)"
  shows "addLog amb l app = app\<lparr>logs := pushLog (logs app) l\<rparr>"
proof -
  have "length (pushLog (logs app) l) \<le> processedLogsCount (notifier app)"
    using assms length_pushLog_le [of "logs app" l] by simp
  then show ?thesis by (simp add: addLog_def notifyListeners_def onLogs_skip)
qed

lemma stuck_step:
  assumes "length (logs app) \<le> maxLogs" "maxLogs \<le> processedLogsCount (notifier app)"
  shows "length (logs (step app e)) \<le> maxLogs \<and> silent (notifier app) (notifier (step app e))"
proof -
  obtain amb ev where e: "e = (amb, ev)" by (cases e)
  show ?thesis
  proof (cases ev)
    case (NativeLog l)
    then show ?thesis using e assms length_pushLog_le [of "logs app" l]
      by (simp add: addLog_skip silent_def)
  next
    case (Resume i r stamp)
    show ?thesis
    proof (cases "i < length (pending (notifier app))")
      case False
      then show ?thesis using e Resume assms by (simp add: resume_def Let_def silent_def)
    next
      case True
      obtain found cache where g:
        "getTunnelById_settle (pending (notifier app) ! i) r (tunnelCache (notifier app)) = (found, cache)"
        by (cases "getTunnelById_settle (pending (notifier app) ! i) r (tunnelCache (notifier app))")
      define app1 where "app1 = app\<lparr>notifier := (notifier app)\<lparr>pending := take i (pending (notifier app)) @ drop (Suc i) (pending (notifier app)),
                                       tunnelCache := cache\<rparr>\<rparr>"
      have a1: "length (logs app1) \<le> maxLogs" "maxLogs \<le> processedLogsCount (notifier app1)"
        using assms by (simp_all add: app1_def)
      have s1: "silent (notifier app) (notifier app1)"
        using True by (simp add: silent_def app1_def)
      have r: "resume amb i r stamp app =
          (case synthesize (lookup_tunnel (pending (notifier app) ! i)) found stamp of
             None \<Rightarrow> app1 | Some line \<Rightarrow> addLog amb line app1)"
        using True g unfolding app1_def by (simp add: resume_def Let_def)
      show ?thesis
      proof (cases "synthesize (lookup_tunnel (pending (notifier app) ! i)) found stamp")
        case None
        then show ?thesis using r e Resume a1 s1 by simp
      next
        case (Some line)
        then have "resume amb i r stamp app = app1\<lparr>logs := pushLog (logs app1) line\<rparr>"
          using r a1 by (simp add: addLog_skip)
        then show ?thesis using e Resume a1 s1 length_pushLog_le [of "logs app1" line] by simp
      qed
    qed
  next
    case ClearLogs
    then show ?thesis using e assms
      by (simp add: clearLogs_def notifyListeners_def onLogs_def silent_def)
  next
    case Subscribe
    then show ?thesis using e assms by (simp add: notifyListeners_skip silent_def)
  qed
qed

lemma silent_trans: "silent a b \<Longrightarrow> silent b c \<Longrightarrow> silent a c"
  by (auto simp: silent_def)

lemma stuck_run:
  assumes "length (logs app) \<le> maxLogs" "maxLogs \<le> processedLogsCount (notifier app)"
  shows "length (logs (run app evs)) \<le> maxLogs \<and> silent (notifier app) (notifier (run app evs))"
  using assms
proof (induction evs arbitrary: app)
  case Nil
  then show ?case by (simp add: run_def silent_def)
next
  case (Cons e evs)
  have st: "length (logs (step app e)) \<le> maxLogs" "silent (notifier app) (notifier (step app e))"
    using stuck_step [OF Cons.prems] by simp_all
  then have "maxLogs \<le> processedLogsCount (notifier (step app e))"
    using Cons.prems by (simp add: silent_def)
  from Cons.IH [OF st(1) this] st(2) show ?case
    by (auto simp: run_def intro: silent_trans)
qed

lemma skipped_run:
  assumes "length (logs app) + length evs \<le> processedLogsCount (notifier app)"
    and "list_all (\<lambda>e. native (snd e)) evs"
  shows "notifier (run app evs) = notifier app \<and> length (logs (run app evs)) \<le> length (logs app) + length evs"
  using assms
proof (induction evs arbitrary: app)
  case Nil
  then show ?case by (simp add: run_def)
next
  case (Cons e evs)
  obtain amb l where e: "e = (amb, NativeLog l)"
    using Cons.prems(2) by (cases e, cases "snd e") auto
  have len: "length (pushLog (logs app) l) \<le> Suc (length (logs app))"
    by (auto simp: pushLog_def trimLogs_def slice_last_def)
  then have "length (pushLog (logs app) l) \<le> processedLogsCount (notifier app)"
    using Cons.prems(1) by simp
  then have st: "step app e = app\<lparr>logs := pushLog (logs app) l\<rparr>"
    using e by (simp add: addLog_def notifyListeners_def onLogs_skip)
  have "length (logs (step app e)) + length evs \<le> processedLogsCount (notifier (step app e))"
    using st len Cons.prems(1) by simp
  from Cons.IH [OF this] Cons.prems(2) st len show ?case by (simp add: run_def)
qed

section \<open>The synthesized-this-epoch flag\<close>

lemma lookup_tunnel_call [simp]: "lookup_tunnel (getTunnelById_call cache now X) = X"
  by (simp add: getTunnelById_call_def)








lemma logs_addLog: "logs (addLog amb l app) = pushLog (logs app) l"
  by (simp add: addLog_def notifyListeners_def)




section \<open>The buffer in the running store\<close>

lemma logs_notifyListeners [simp]: "logs (notifyListeners amb app) = logs app"
  by (simp add: notifyListeners_def)

lemma logs_resume:
  "logs (resume amb i r stamp app) = logs app \<or>
   (\<exists>l. logs (resume amb i r stamp app) = pushLog (logs app) l)"
proof (cases "i < length (pending (notifier app))")
  case False
  then show ?thesis by (simp add: resume_def Let_def)
next
  case True
  then show ?thesis
    by (auto simp: resume_def Let_def split_beta logs_addLog split: option.splits)
qed

lemma length_logs_step:
  assumes "length (logs app) \<le> maxLogs"
  shows "length (logs (step app e)) \<le> maxLogs"
proof -
  obtain amb ev where e: "e = (amb, ev)" by (cases e)
  show ?thesis
  proof (cases ev)
    case (NativeLog l)
    then show ?thesis using e assms by (simp add: logs_addLog length_pushLog_le)
  next
    case (Resume i r stamp)
    then show ?thesis using e assms logs_resume [of amb i r stamp app]
      by (auto simp: length_pushLog_le)
  next
    case ClearLogs
    then show ?thesis using e by (simp add: clearLogs_def)
  next
    case Subscribe
    then show ?thesis using e assms by simp
  qed
qed

lemma length_logs_run:
  "length (logs app) \<le> maxLogs \<Longrightarrow> length (logs (run app evs)) \<le> maxLogs"
proof (induction evs arbitrary: app)
  case Nil
  then show ?case by (simp add: run_def)
next
  case (Cons e evs)
  from Cons.IH [OF length_logs_step [OF Cons.prems]] show ?case by (simp add: run_def)
qed

lemma logs_run_native:
  "logs (run app (map (\<lambda>(amb, l). (amb, NativeLog l)) als)) = foldl pushLog (logs app) (map snd als)"
proof (induction als arbitrary: app)
  case Nil
  show ?case by (simp add: run_def)
next
  case (Cons al als)
  obtain amb l where al: "al = (amb, l)" by (cases al)
  have "run app (map (\<lambda>(amb, l). (amb, NativeLog l)) (al # als)) =
        run (addLog amb l app) (map (\<lambda>(amb, l). (amb, NativeLog l)) als)"
    by (simp add: run_def al)
  then show ?case using Cons.IH [of "addLog amb l app"] by (simp add: al logs_addLog)
qed

text \<open>
  C6. The buffer starts empty. After any sequence of appended lines it holds at most
  5000 entries, and they are the newest 5000 of the appended lines in their original
  order (the oldest are dropped from the front). This is so for the bare buffer
  operation (push, then trim) and for the store with its listener attached, where
  moreover no sequence of events whatever (native lines, closures appending friendly
  lines, clears) makes the buffer longer than 5000.
\<close>

theorem log_buffer_bounded_fifo:
  "length (foldl pushLog [] ls) \<le> 5000 \<and>
   foldl pushLog [] ls = drop (length ls - 5000) ls \<and>
   length (logs (run fresh evs)) \<le> 5000 \<and>
   logs (run fresh (map (\<lambda>(amb, l). (amb, NativeLog l)) als)) =
     drop (length als - 5000) (map snd als)"
proof -
  have "foldl pushLog (slice_last maxLogs []) xs = slice_last maxLogs ([] @ xs)" for xs
    by (rule foldl_pushLog_eq)
  then have fifo: "foldl pushLog [] xs = drop (length xs - 5000) xs" for xs
    by (simp add: slice_last_def maxLogs_def)
  have "length (logs (run fresh evs)) \<le> maxLogs"
    by (rule length_logs_run) (simp add: fresh_def)
  then have "length (logs (run fresh evs)) \<le> 5000" by (simp add: maxLogs_def)
  moreover have "logs (run fresh (map (\<lambda>(amb, l). (amb, NativeLog l)) als)) =
     drop (length als - 5000) (map snd als)"
    using fifo [of "map snd als"] by (simp add: logs_run_native fresh_def)
  ultimately show ?thesis using fifo [of ls] by simp
qed

section \<open>Runs of events\<close>

lemma run_append: "run app (evs @ evs') = run (run app evs) evs'"
  by (simp add: run_def)

lemma run_one: "run app [e] = step app e"
  by (simp add: run_def)

lemma run_nil: "run app [] = app"
  by (simp add: run_def)

lemma run_cons: "run app (e # evs) = run (step app e) evs"
  by (simp add: run_def)

lemma lines_of_cons: "lines_of (e # evs) = lines_of [e] @ lines_of evs"
  by (cases e, cases "snd e") auto

lemma lines_of_replicate: "lines_of (replicate n (amb, NativeLog l)) = replicate n l"
  by (induction n) auto

section \<open>The listener once the cursor has reached the capacity\<close>

lemma resume_synthesized:
  "logs (resume amb i r stamp app) = foldl pushLog (logs app) (synthesized app [(amb, Resume i r stamp)])"
proof (cases "i < length (pending (notifier app))")
  case False
  then show ?thesis by (simp add: resume_def Let_def)
next
  case True
  then show ?thesis
    by (simp add: resume_def Let_def split_beta logs_addLog resolved_def split: option.splits)
qed

lemma synthesized_one:
  "synthesized app [e] = [] \<or> (\<exists>line. synthesized app [e] = [line])"
  by (cases e, cases "snd e") (auto split: option.splits)

lemma synthesized_cons:
  "synthesized app (e # evs) = synthesized app [e] @ synthesized (step app e) evs"
  by (cases e, cases "snd e") auto

lemma logs_step_among:
  "set (logs (step app e)) \<subseteq> set (logs app) \<union> set (lines_of [e]) \<union> set (synthesized app [e])"
proof -
  obtain amb ev where e: "e = (amb, ev)" by (cases e)
  show ?thesis
  proof (cases ev)
    case (NativeLog l)
    then show ?thesis using e set_pushLog [of "logs app" l] by (auto simp: logs_addLog)
  next
    case (Resume i r stamp)
    have "logs (step app e) = foldl pushLog (logs app) (synthesized app [e])"
      using e Resume resume_synthesized [of amb i r stamp app] by simp
    then show ?thesis using synthesized_one [of app e] set_pushLog [of "logs app"]
      by (elim disjE exE) (simp, simp, blast)
  next
    case ClearLogs
    then show ?thesis using e by (simp add: clearLogs_def)
  next
    case Subscribe
    then show ?thesis using e by simp
  qed
qed

lemma logs_run_among:
  "set (logs (run app evs)) \<subseteq> set (logs app) \<union> set (lines_of evs) \<union> set (synthesized app evs)"
proof (induction evs arbitrary: app)
  case Nil
  show ?case by (simp add: run_def)
next
  case (Cons e evs)
  have "set (logs (run app (e # evs))) \<subseteq>
      set (logs (step app e)) \<union> set (lines_of evs) \<union> set (synthesized (step app e) evs)"
    using Cons.IH [of "step app e"] by (simp add: run_cons)
  moreover note logs_step_among [of app e]
  moreover have "set (lines_of (e # evs)) = set (lines_of [e]) \<union> set (lines_of evs)"
    using lines_of_cons [of e evs] by simp
  moreover have "set (synthesized app (e # evs)) = set (synthesized app [e]) \<union> set (synthesized (step app e) evs)"
    using synthesized_cons [of app e evs] by simp
  ultimately show ?case by blast
qed

lemma stuck_pending_step:
  assumes "length (logs app) \<le> maxLogs" "maxLogs \<le> processedLogsCount (notifier app)"
  shows "length (synthesized app [e]) + length (pending (notifier (step app e)))
           \<le> length (pending (notifier app))"
proof -
  obtain amb ev where e: "e = (amb, ev)" by (cases e)
  show ?thesis
  proof (cases ev)
    case (NativeLog l)
    then show ?thesis using e assms by (simp add: addLog_skip)
  next
    case (Resume i r stamp)
    show ?thesis
    proof (cases "i < length (pending (notifier app))")
      case False
      then show ?thesis using e Resume by (simp add: resume_def Let_def)
    next
      case True
      define app1 where "app1 = app\<lparr>notifier := (notifier app)\<lparr>pending := take i (pending (notifier app)) @ drop (Suc i) (pending (notifier app)),
            tunnelCache := snd (getTunnelById_settle (pending (notifier app) ! i) r (tunnelCache (notifier app)))\<rparr>\<rparr>"
      have a1: "length (logs app1) \<le> maxLogs" "maxLogs \<le> processedLogsCount (notifier app1)"
        using assms by (simp_all add: app1_def)
      have p1: "Suc (length (pending (notifier app1))) = length (pending (notifier app))"
        using True by (simp add: app1_def)
      have r: "resume amb i r stamp app =
          (case synthesize (lookup_tunnel (pending (notifier app) ! i))
                  (resolved (pending (notifier app) ! i) r (tunnelCache (notifier app))) stamp of
             None \<Rightarrow> app1 | Some line \<Rightarrow> addLog amb line app1)"
        using True unfolding app1_def by (simp add: resume_def Let_def resolved_def split_beta)
      show ?thesis
      proof (cases "synthesize (lookup_tunnel (pending (notifier app) ! i))
                  (resolved (pending (notifier app) ! i) r (tunnelCache (notifier app))) stamp")
        case None
        then show ?thesis using r e Resume p1 True by simp
      next
        case (Some line)
        then have "resume amb i r stamp app = app1\<lparr>logs := pushLog (logs app1) line\<rparr>"
          using r a1 by (simp add: addLog_skip)
        then show ?thesis using e Resume Some p1 True by simp
      qed
    qed
  next
    case ClearLogs
    then show ?thesis using e by (simp add: clearLogs_def notifyListeners_def onLogs_def)
  next
    case Subscribe
    then show ?thesis using e assms by (simp add: notifyListeners_skip)
  qed
qed

lemma stuck_pending_run:
  assumes "length (logs app) \<le> maxLogs" "maxLogs \<le> processedLogsCount (notifier app)"
  shows "length (synthesized app evs) + length (pending (notifier (run app evs)))
           \<le> length (pending (notifier app))"
  using assms
proof (induction evs arbitrary: app)
  case Nil
  then show ?case by (simp add: run_def)
next
  case (Cons e evs)
  have st: "length (logs (step app e)) \<le> maxLogs" "silent (notifier app) (notifier (step app e))"
    using stuck_step [OF Cons.prems] by simp_all
  then have "maxLogs \<le> processedLogsCount (notifier (step app e))"
    using Cons.prems by (simp add: silent_def)
  from Cons.IH [OF st(1) this] stuck_pending_step [OF Cons.prems, of e]
  show ?case by (simp add: run_cons synthesized_cons [of app e evs])
qed

text \<open>
  C9, as the code has it. The listener sets its cursor to the length of the snapshot and
  never lowers it: a snapshot no longer than the cursor is not processed at all, and of
  a longer one only the lines from the cursor position on are processed. So after a
  clear, the lines the native layer appends while the buffer is no longer than the old
  cursor leave the hook as it was. Once the cursor has reached the capacity of the
  buffer, whatever happens afterwards the listener stays silent: no toast, no sound, no
  change of the dedup sets, no closure started. A closure that runs on hands its
  friendly line to the store whatever the cursor is, so friendly lines can still be
  appended after that moment, but only by closures that were already under way: the
  friendly lines synthesized from then on are at most as many as the closures that were
  pending and have finished since, and every line in the buffer was there before, was
  emitted by the native layer, or is one of these.
\<close>

theorem cursor_never_rolls_back:
  "processedLogsCount (onLogs amb snap s) = max (processedLogsCount s) (length snap) \<and>
   (length snap \<le> processedLogsCount s \<longrightarrow> onLogs amb snap s = s) \<and>
   (length before = processedLogsCount s \<and> after \<noteq> [] \<longrightarrow>
      onLogs amb (before @ after) s =
        foldl (processLog amb (before @ after)) (s\<lparr>processedLogsCount := length (before @ after)\<rparr>) after) \<and>
   (length evs \<le> processedLogsCount (notifier app) \<and> list_all (\<lambda>e. native (snd e)) evs \<longrightarrow>
      notifier (run (clearLogs amb app) evs) = notifier app) \<and>
   logs (resume amb i r stamp app) = foldl pushLog (logs app) (synthesized app [(amb, Resume i r stamp)]) \<and>
   (length (logs app) \<le> maxLogs \<and> maxLogs \<le> processedLogsCount (notifier app) \<longrightarrow>
      silent (notifier app) (notifier (run app evs')) \<and>
      length (synthesized app evs') + length (pending (notifier (run app evs')))
        \<le> length (pending (notifier app)) \<and>
      set (logs (run app evs')) \<subseteq> set (logs app) \<union> set (lines_of evs') \<union> set (synthesized app evs'))"
proof -
  have c: "clearLogs amb app = app\<lparr>logs := []\<rparr>"
    by (simp add: clearLogs_def notifyListeners_def onLogs_def)
  have "notifier (run (clearLogs amb app) evs) = notifier app"
    if "length evs \<le> processedLogsCount (notifier app)" "list_all (\<lambda>e. native (snd e)) evs"
    using skipped_run [of "clearLogs amb app" evs] that by (simp add: c)
  moreover have "onLogs amb (before @ after) s =
        foldl (processLog amb (before @ after)) (s\<lparr>processedLogsCount := length (before @ after)\<rparr>) after"
    if "length before = processedLogsCount s" "after \<noteq> []"
    using that onLogs_one [of s "before @ after" amb] by simp
  ultimately show ?thesis
    using onLogs_cursor onLogs_skip stuck_run [of app evs'] stuck_pending_run [of app evs']
      logs_run_among [of app evs'] resume_synthesized [of amb i r stamp app]
    by blast
qed

section \<open>What processing one line does\<close>

lemma processLog_tunnelCache [simp]:
  "tunnelCache (processLog amb snap s l) = tunnelCache s"
  by (simp add: processLog_def Let_def playTunnelSound_def)

lemma processLog_successLogAdded:
  "successLogAdded (processLog amb snap s l) =
     (let A = (if str_includes (message l) process_started then successLogAdded s - {tunnel_id l}
               else successLogAdded s)
      in if str_includes (message l) mapping_ok \<and> \<not> hasLauncherSuccessLog snap (tunnel_id l)
         then insert (tunnel_id l) A else A)"
  by (auto simp: processLog_def Let_def playTunnelSound_def)

lemma processLog_pending:
  "pending (processLog amb snap s l) =
     (if str_includes (message l) mapping_ok \<and> \<not> hasLauncherSuccessLog snap (tunnel_id l) \<and>
         (tunnel_id l \<notin> successLogAdded s \<or> str_includes (message l) process_started)
      then pending s @ [getTunnelById_call (tunnelCache s) (clock amb) (tunnel_id l)]
      else pending s)"
  by (auto simp: processLog_def Let_def playTunnelSound_def)

lemma processLog_notifiedSuccess:
  assumes "activeTab amb \<noteq> ascii ''tunnels''"
  shows "notifiedSuccess (processLog amb snap s l) =
     (if str_includes (message l) mapping_ok then insert (tunnel_id l) (notifiedSuccess s)
      else if str_includes (message l) process_started then notifiedSuccess s - {tunnel_id l}
      else notifiedSuccess s)"
  using assms by (auto simp: processLog_def Let_def playTunnelSound_def)

lemma processLog_successCount:
  assumes "activeTab amb \<noteq> ascii ''tunnels''"
  shows "successCount (processLog amb snap s l) =
     (if str_includes (message l) mapping_ok \<and>
         (tunnel_id l \<notin> notifiedSuccess s \<or> str_includes (message l) process_started)
      then Suc (successCount s) else successCount s)"
  using assms by (auto simp: processLog_def Let_def playTunnelSound_def successCount_def)

lemma processLog_notifiedSuccess_any:
  "notifiedSuccess (processLog amb snap s l) =
     (let B = (if str_includes (message l) process_started then notifiedSuccess s - {tunnel_id l}
               else notifiedSuccess s)
      in if activeTab amb \<noteq> ascii ''tunnels'' \<and> str_includes (message l) mapping_ok
         then insert (tunnel_id l) B else B)"
  by (auto simp: processLog_def Let_def playTunnelSound_def)

lemma processLog_successCount_any:
  "successCount (processLog amb snap s l) =
     (if activeTab amb \<noteq> ascii ''tunnels'' \<and> str_includes (message l) mapping_ok \<and>
         (tunnel_id l \<notin> notifiedSuccess s \<or> str_includes (message l) process_started)
      then Suc (successCount s) else successCount s)"
  by (auto simp: processLog_def Let_def playTunnelSound_def successCount_def)

lemma has_mono:
  "hasLauncherSuccessLog xs X \<Longrightarrow> hasLauncherSuccessLog (xs @ ys) X"
  by (auto simp: hasLauncherSuccessLog_def)

lemma addLog_in_step:
  assumes "processedLogsCount (notifier app) = length (logs app)" "length (logs app) < maxLogs"
  shows "addLog amb l app =
     \<lparr>logs = logs app @ [l],
      notifier = processLog amb (logs app @ [l])
                   ((notifier app)\<lparr>processedLogsCount := Suc (length (logs app))\<rparr>) l\<rparr>"
  using assms by (simp add: addLog_def notifyListeners_def pushLog_room onLogs_def)

lemma resume_last:
  assumes "pending (notifier app) = ps @ [tk]"
  shows "resume amb (length ps) r stamp app =
     (let app1 = app\<lparr>notifier := (notifier app)\<lparr>pending := ps,
                        tunnelCache := snd (getTunnelById_settle tk r (tunnelCache (notifier app)))\<rparr>\<rparr>
      in case synthesize (lookup_tunnel tk) (resolved tk r (tunnelCache (notifier app))) stamp of
           None \<Rightarrow> app1 | Some line \<Rightarrow> addLog amb line app1)"
  using assms by (simp add: resume_def Let_def resolved_def split_beta)

lemma synthesize_eq:
  "synthesize X found stamp =
     (case found of
        None \<Rightarrow> None
      | Some t \<Rightarrow> if web_protocol t
                  then Some \<lparr>tunnel_id = X, message = friendlyMessage X t, timestamp = stamp\<rparr>
                  else None)"
  by (auto simp: synthesize_def web_protocol_def Let_def split: option.splits)

text \<open>
  C4, as the code has it. When a line with the success marker arrives (the hook in step
  with a buffer that has room), no friendly line of the session is in the buffer and
  none was synthesized this epoch, one closure is started; when it runs on, the buffer
  gains one friendly line exactly if the session was found and its protocol is http or
  https, and gains nothing otherwise. The friendly line names the access link when the
  session has one and is the plain success line when it has none.
\<close>

theorem friendly_line_for_web_sessions:
  assumes sync: "processedLogsCount (notifier app) = length (logs app)"
    and room: "Suc (length (logs app)) < maxLogs"
    and marker: "str_includes (message l) mapping_ok"
    and nofriendly: "\<not> hasLauncherSuccessLog (logs app @ [l]) (tunnel_id l)"
    and notyet: "tunnel_id l \<notin> successLogAdded (notifier app)"
  shows "pending (notifier (addLog amb l app)) =
           pending (notifier app) @ [getTunnelById_call (tunnelCache (notifier app)) (clock amb) (tunnel_id l)] \<and>
         logs (resume amb' (length (pending (notifier app))) r stamp (addLog amb l app)) =
           logs app @ [l] @
           (case resolved (getTunnelById_call (tunnelCache (notifier app)) (clock amb) (tunnel_id l)) r
                   (tunnelCache (notifier app)) of
              None \<Rightarrow> []
            | Some t \<Rightarrow>
                if web_protocol t
                then [\<lparr>tunnel_id = tunnel_id l, message = friendlyMessage (tunnel_id l) t, timestamp = stamp\<rparr>]
                else []) \<and>
         friendlyMessage X t' =
           friendly_head @ (if tname t' \<noteq> [] then tname t' else [0x96A7, 0x9053] @ number_text X) @
           (if dorp t' \<noteq> [] then friendly_link @ dorp t' @ friendly_link_end else friendly_plain_end)"
proof -
  let ?tk = "getTunnelById_call (tunnelCache (notifier app)) (clock amb) (tunnel_id l)"
  let ?app1 = "addLog amb l app"
  have room1: "length (logs app) < maxLogs" using room by simp
  have a1: "?app1 = \<lparr>logs = logs app @ [l],
      notifier = processLog amb (logs app @ [l])
                   ((notifier app)\<lparr>processedLogsCount := Suc (length (logs app))\<rparr>) l\<rparr>"
    by (rule addLog_in_step [OF sync room1])
  have p1: "pending (notifier ?app1) = pending (notifier app) @ [?tk]"
    using marker nofriendly notyet by (simp add: a1 processLog_pending)
  have l1: "logs ?app1 = logs app @ [l]" by (simp add: a1)
  have c1: "tunnelCache (notifier ?app1) = tunnelCache (notifier app)" by (simp add: a1)
  have r: "resume amb' (length (pending (notifier app))) r stamp ?app1 =
     (let app2 = ?app1\<lparr>notifier := (notifier ?app1)\<lparr>pending := pending (notifier app),
                        tunnelCache := snd (getTunnelById_settle ?tk r (tunnelCache (notifier ?app1)))\<rparr>\<rparr>
      in case synthesize (lookup_tunnel ?tk) (resolved ?tk r (tunnelCache (notifier ?app1))) stamp of
           None \<Rightarrow> app2 | Some line \<Rightarrow> addLog amb' line app2)"
    by (rule resume_last [OF p1])
  have "logs (resume amb' (length (pending (notifier app))) r stamp ?app1) =
           logs app @ [l] @
           (case resolved ?tk r (tunnelCache (notifier app)) of
              None \<Rightarrow> []
            | Some t \<Rightarrow>
                if web_protocol t
                then [\<lparr>tunnel_id = tunnel_id l, message = friendlyMessage (tunnel_id l) t, timestamp = stamp\<rparr>]
                else [])"
    unfolding r c1 using room l1
    by (simp add: Let_def synthesize_eq logs_addLog pushLog_room split: option.splits)
  moreover have "friendlyMessage X t' =
           friendly_head @ (if tname t' \<noteq> [] then tname t' else [0x96A7, 0x9053] @ number_text X) @
           (if dorp t' \<noteq> [] then friendly_link @ dorp t' @ friendly_link_end else friendly_plain_end)"
    by (simp add: friendlyMessage_def Let_def)
  ultimately show ?thesis using p1 by blast
qed

section \<open>Toasts and friendly lines over an epoch\<close>

lemma successToasts_eq: "successToasts app = successCount (notifier app)"
  by (simp add: successToasts_def)

lemma successCount_cursor [simp]:
  "successCount (s\<lparr>processedLogsCount := n\<rparr>) = successCount s"
  by (simp add: successCount_def)

lemma successCount_fresh [simp]: "successCount (notifier fresh) = 0"
  by (simp add: successCount_def fresh_def)

lemma fresh_fields [simp]:
  "logs fresh = []" "processedLogsCount (notifier fresh) = 0" "notifiedSuccess (notifier fresh) = {}"
  "successLogAdded (notifier fresh) = {}" "pending (notifier fresh) = []"
  by (simp_all add: fresh_def)

lemma bystander_step:
  assumes sync: "processedLogsCount (notifier app) = length (logs app)"
    and room: "length (logs app) + length (lines_of [e]) \<le> maxLogs"
    and bys: "bystander X (snd e)"
  shows "carries app (lines_of [e]) (step app e) \<and>
         (X \<in> notifiedSuccess (notifier (step app e)) \<longleftrightarrow> X \<in> notifiedSuccess (notifier app)) \<and>
         (X \<in> successLogAdded (notifier (step app e)) \<longleftrightarrow> X \<in> successLogAdded (notifier app))"
proof -
  obtain amb ev where e: "e = (amb, ev)" by (cases e)
  show ?thesis
  proof (cases ev)
    case (NativeLog l)
    then show ?thesis using e bys sync room
      by (auto simp: carries_def addLog_in_step processLog_successCount_any
          processLog_notifiedSuccess_any processLog_successLogAdded processLog_pending Let_def)
  next
    case Subscribe
    then show ?thesis using e sync by (simp add: carries_def notifyListeners_skip)
  qed (use e bys in auto)
qed

lemma bystander_run:
  assumes "processedLogsCount (notifier app) = length (logs app)"
    and "length (logs app) + length (lines_of m) \<le> maxLogs"
    and "\<forall>e \<in> set m. bystander X (snd e)"
  shows "carries app (lines_of m) (run app m) \<and>
         (X \<in> notifiedSuccess (notifier (run app m)) \<longleftrightarrow> X \<in> notifiedSuccess (notifier app)) \<and>
         (X \<in> successLogAdded (notifier (run app m)) \<longleftrightarrow> X \<in> successLogAdded (notifier app))"
  using assms
proof (induction m arbitrary: app)
  case Nil
  then show ?case by (simp add: run_def carries_def)
next
  case (Cons e m)
  have split: "lines_of (e # m) = lines_of [e] @ lines_of m" by (cases e, cases "snd e") auto
  have room: "length (logs app) + length (lines_of [e]) \<le> maxLogs" using Cons.prems(2) split by simp
  have bys: "bystander X (snd e)" using Cons.prems(3) by simp
  note st = bystander_step [OF Cons.prems(1) room bys]
  have sync': "processedLogsCount (notifier (step app e)) = length (logs (step app e))"
    using st by (simp add: carries_def)
  have room': "length (logs (step app e)) + length (lines_of m) \<le> maxLogs"
    using st Cons.prems(2) split by (simp add: carries_def)
  have ih: "carries (step app e) (lines_of m) (run (step app e) m) \<and>
         (X \<in> notifiedSuccess (notifier (run (step app e) m)) \<longleftrightarrow> X \<in> notifiedSuccess (notifier (step app e))) \<and>
         (X \<in> successLogAdded (notifier (run (step app e) m)) \<longleftrightarrow> X \<in> successLogAdded (notifier (step app e)))"
    using Cons.IH [OF sync' room'] Cons.prems(3) by simp
  show ?case unfolding run_cons split using st ih by (auto simp: carries_def)
qed

lemma absorbed_step:
  assumes sync: "processedLogsCount (notifier app) = length (logs app)"
    and room: "length (logs app) + length (lines_of [e]) \<le> maxLogs"
    and ab: "absorbed X (snd e)"
    and ns: "X \<in> notifiedSuccess (notifier app)"
    and guard: "X \<in> successLogAdded (notifier app) \<or> hasLauncherSuccessLog (logs app) X"
  shows "carries app (lines_of [e]) (step app e) \<and>
         X \<in> notifiedSuccess (notifier (step app e)) \<and>
         (X \<in> successLogAdded (notifier (step app e)) \<or> hasLauncherSuccessLog (logs (step app e)) X)"
proof -
  obtain amb ev where e: "e = (amb, ev)" by (cases e)
  show ?thesis
  proof (cases ev)
    case (NativeLog l)
    have h: "hasLauncherSuccessLog (logs app) X \<Longrightarrow> hasLauncherSuccessLog (logs app @ [l]) X"
      by (rule has_mono)
    show ?thesis using NativeLog e ab sync room ns guard h
      by (auto simp: carries_def addLog_in_step processLog_successCount_any
          processLog_notifiedSuccess_any processLog_successLogAdded processLog_pending Let_def
          split: if_splits)
  next
    case Subscribe
    then show ?thesis using e sync ns guard by (simp add: carries_def notifyListeners_skip)
  qed (use e ab in auto)
qed

lemma absorbed_run:
  assumes "processedLogsCount (notifier app) = length (logs app)"
    and "length (logs app) + length (lines_of m) \<le> maxLogs"
    and "\<forall>e \<in> set m. absorbed X (snd e)"
    and "X \<in> notifiedSuccess (notifier app)"
    and "X \<in> successLogAdded (notifier app) \<or> hasLauncherSuccessLog (logs app) X"
  shows "carries app (lines_of m) (run app m) \<and>
         X \<in> notifiedSuccess (notifier (run app m)) \<and>
         (X \<in> successLogAdded (notifier (run app m)) \<or> hasLauncherSuccessLog (logs (run app m)) X)"
  using assms
proof (induction m arbitrary: app)
  case Nil
  then show ?case by (simp add: run_def carries_def)
next
  case (Cons e m)
  have split: "lines_of (e # m) = lines_of [e] @ lines_of m" by (cases e, cases "snd e") auto
  have room: "length (logs app) + length (lines_of [e]) \<le> maxLogs" using Cons.prems(2) split by simp
  have ab: "absorbed X (snd e)" using Cons.prems(3) by simp
  note st = absorbed_step [OF Cons.prems(1) room ab Cons.prems(4) Cons.prems(5)]
  have sync': "processedLogsCount (notifier (step app e)) = length (logs (step app e))"
    using st by (simp add: carries_def)
  have room': "length (logs (step app e)) + length (lines_of m) \<le> maxLogs"
    using st Cons.prems(2) split by (simp add: carries_def)
  have ih: "carries (step app e) (lines_of m) (run (step app e) m) \<and>
         X \<in> notifiedSuccess (notifier (run (step app e) m)) \<and>
         (X \<in> successLogAdded (notifier (run (step app e) m)) \<or>
          hasLauncherSuccessLog (logs (run (step app e) m)) X)"
    using Cons.IH [OF sync' room'] Cons.prems(3) st by simp
  show ?case unfolding run_cons split using st ih by (auto simp: carries_def)
qed

lemma friendly_tagged:
  "str_includes (friendlyMessage X t) launcher_tag \<and> str_includes (friendlyMessage X t) started_ok"
proof -
  have head: "friendly_head = ascii ''[I] '' @ launcher_tag @ (ascii '' '' @ [0x96A7, 0x9053, 0x22])"
    by (simp add: friendly_head_def launcher_tag_def ascii_def)
  have link: "friendly_link = [0x22] @ started_ok @ [0xFF0C, 0x60A8, 0x53EF, 0x4EE5, 0x901A, 0x8FC7, 0x22]"
    by (simp add: friendly_link_def started_ok_def)
  have plain: "friendly_plain_end = [0x22] @ started_ok @ [0x3002]"
    by (simp add: friendly_plain_end_def started_ok_def)
  have tag: "\<exists>p q. friendlyMessage X t = p @ launcher_tag @ q"
    unfolding friendlyMessage_def Let_def head
    by (cases "dorp t = []") (simp_all, blast+)
  have ok: "\<exists>p q. friendlyMessage X t = p @ started_ok @ q"
  proof (cases "dorp t = []")
    case True
    define nm where "nm = (if tname t \<noteq> [] then tname t else [0x96A7, 0x9053] @ number_text X)"
    have "friendlyMessage X t = (friendly_head @ nm @ [0x22]) @ started_ok @ [0x3002]"
      using True by (simp add: friendlyMessage_def Let_def plain nm_def)
    then show ?thesis by blast
  next
    case False
    define nm where "nm = (if tname t \<noteq> [] then tname t else [0x96A7, 0x9053] @ number_text X)"
    have "friendlyMessage X t = (friendly_head @ nm @ [0x22]) @ started_ok @
        ([0xFF0C, 0x60A8, 0x53EF, 0x4EE5, 0x901A, 0x8FC7, 0x22] @ dorp t @ friendly_link_end)"
      using False by (simp add: friendlyMessage_def Let_def link nm_def)
    then show ?thesis by blast
  qed
  show ?thesis using tag ok by (simp add: includes_iff)
qed

text \<open>The launch line of an epoch, what comes before the first success line, and that line.\<close>

lemma epoch_open:
  fixes X :: int and app :: App and a1 a2 :: Ambient and l1 l2 :: LogMessage
    and m1 :: "(Ambient \<times> event) list"
  assumes sync: "processedLogsCount (notifier app) = length (logs app)"
    and room: "length (logs app) + length (l1 # lines_of m1 @ [l2]) \<le> maxLogs"
    and l1: "tunnel_id l1 = X" "str_includes (message l1) process_started"
    and m1: "\<forall>e \<in> set m1. bystander X (snd e)"
    and l2: "tunnel_id l2 = X" "str_includes (message l2) mapping_ok"
      "\<not> str_includes (message l2) process_started"
    and a1: "activeTab a1 \<noteq> ascii ''tunnels''" and a2: "activeTab a2 \<noteq> ascii ''tunnels''"
  defines "snap \<equiv> (if str_includes (message l1) mapping_ok then logs app @ [l1]
                    else logs app @ l1 # lines_of m1 @ [l2])"
    and "tk \<equiv> getTunnelById_call (tunnelCache (notifier app))
                (clock (if str_includes (message l1) mapping_ok then a1 else a2)) X"
    and "B \<equiv> run app ((a1, NativeLog l1) # m1 @ [(a2, NativeLog l2)])"
  shows "logs B = logs app @ l1 # lines_of m1 @ [l2] \<and>
         processedLogsCount (notifier B) = length (logs B) \<and>
         successCount (notifier B) = Suc (successCount (notifier app)) \<and>
         X \<in> notifiedSuccess (notifier B) \<and>
         (X \<in> successLogAdded (notifier B) \<or> hasLauncherSuccessLog (logs B) X) \<and>
         pending (notifier B) =
           pending (notifier app) @ (if hasLauncherSuccessLog snap X then [] else [tk]) \<and>
         tunnelCache (notifier B) = tunnelCache (notifier app)"
proof -
  define A where "A = step app (a1, NativeLog l1)"
  have roomA: "length (logs app) < maxLogs" using room by simp
  have A_eq: "A = \<lparr>logs = logs app @ [l1],
      notifier = processLog a1 (logs app @ [l1])
                   ((notifier app)\<lparr>processedLogsCount := Suc (length (logs app))\<rparr>) l1\<rparr>"
    unfolding A_def using addLog_in_step [OF sync roomA] by simp
  have A: "logs A = logs app @ [l1]" "processedLogsCount (notifier A) = length (logs A)"
      "tunnelCache (notifier A) = tunnelCache (notifier app)"
    by (simp_all add: A_eq)
  have A_count: "successCount (notifier A) =
      (if str_includes (message l1) mapping_ok then Suc (successCount (notifier app))
       else successCount (notifier app))"
    using l1 a1 by (simp add: A_eq processLog_successCount_any)
  have A_ns: "X \<in> notifiedSuccess (notifier A) \<longleftrightarrow> str_includes (message l1) mapping_ok"
    using l1 a1 by (simp add: A_eq processLog_notifiedSuccess_any Let_def)
  have A_sla: "X \<in> successLogAdded (notifier A) \<longleftrightarrow>
      str_includes (message l1) mapping_ok \<and> \<not> hasLauncherSuccessLog (logs app @ [l1]) X"
    using l1 by (simp add: A_eq processLog_successLogAdded Let_def)
  have A_pend: "pending (notifier A) = pending (notifier app) @
      (if str_includes (message l1) mapping_ok \<and> \<not> hasLauncherSuccessLog (logs app @ [l1]) X
       then [getTunnelById_call (tunnelCache (notifier app)) (clock a1) X] else [])"
    using l1 by (simp add: A_eq processLog_pending)

  define M where "M = run A m1"
  have roomM: "length (logs A) + length (lines_of m1) \<le> maxLogs" using room A by simp
  have M0: "carries A (lines_of m1) M \<and>
         (X \<in> notifiedSuccess (notifier M) \<longleftrightarrow> X \<in> notifiedSuccess (notifier A)) \<and>
         (X \<in> successLogAdded (notifier M) \<longleftrightarrow> X \<in> successLogAdded (notifier A))"
    unfolding M_def by (rule bystander_run [OF A(2) roomM m1])
  have M: "logs M = logs app @ l1 # lines_of m1" "processedLogsCount (notifier M) = length (logs M)"
      "successCount (notifier M) = successCount (notifier A)"
      "pending (notifier M) = pending (notifier A)"
      "tunnelCache (notifier M) = tunnelCache (notifier app)"
    using M0 A by (simp_all add: carries_def)
  have M_ns: "X \<in> notifiedSuccess (notifier M) \<longleftrightarrow> str_includes (message l1) mapping_ok"
    using M0 A_ns by simp
  have M_sla: "X \<in> successLogAdded (notifier M) \<longleftrightarrow>
      str_includes (message l1) mapping_ok \<and> \<not> hasLauncherSuccessLog (logs app @ [l1]) X"
    using M0 A_sla by simp

  have B_run: "B = step M (a2, NativeLog l2)"
    by (simp add: B_def M_def A_def run_cons run_append run_nil)
  have roomB: "length (logs M) < maxLogs" using room M by simp
  have B_eq: "B = \<lparr>logs = logs M @ [l2],
      notifier = processLog a2 (logs M @ [l2])
                   ((notifier M)\<lparr>processedLogsCount := Suc (length (logs M))\<rparr>) l2\<rparr>"
    unfolding B_run using addLog_in_step [OF M(2) roomB] by simp
  have mono: "hasLauncherSuccessLog (logs app @ [l1]) X \<Longrightarrow>
      hasLauncherSuccessLog (logs M @ [l2]) X"
    using has_mono [of "logs app @ [l1]" X "lines_of m1 @ [l2]"] M by simp
  have B_logs: "logs B = logs app @ l1 # lines_of m1 @ [l2]" using M by (simp add: B_eq)
  have B_sync: "processedLogsCount (notifier B) = length (logs B)" by (simp add: B_eq)
  have B_count: "successCount (notifier B) = Suc (successCount (notifier app))"
    using l2 a2 M M_ns A_count by (simp add: B_eq processLog_successCount_any)
  have B_ns: "X \<in> notifiedSuccess (notifier B)"
    using l2 a2 by (simp add: B_eq processLog_notifiedSuccess_any Let_def)
  have B_guard: "X \<in> successLogAdded (notifier B) \<or> hasLauncherSuccessLog (logs B) X"
    using l2 by (auto simp: B_eq processLog_successLogAdded Let_def)
  have B_cache: "tunnelCache (notifier B) = tunnelCache (notifier app)"
    using M by (simp add: B_eq)
  have B_pend: "pending (notifier B) =
           pending (notifier app) @ (if hasLauncherSuccessLog snap X then [] else [tk])"
  proof (cases "str_includes (message l1) mapping_ok")
    case True
    then show ?thesis
      using l2 M M_sla A_pend mono
      by (auto simp: B_eq processLog_pending snap_def tk_def)
  next
    case False
    then show ?thesis
      using l2 M M_sla A_pend
      by (auto simp: B_eq processLog_pending snap_def tk_def)
  qed
  show ?thesis using B_logs B_sync B_count B_ns B_guard B_pend B_cache by blast
qed

text \<open>The closure started in the epoch runs on.\<close>

lemma epoch_close:
  fixes X :: int and app :: App and r :: "Tunnel list outcome" and stamp :: jsstring and tk :: lookup
    and started :: bool and amb :: Ambient and ps :: "lookup list"
  assumes sync: "processedLogsCount (notifier app) = length (logs app)"
    and pend: "pending (notifier app) = ps @ (if started then [tk] else [])"
    and tk: "lookup_tunnel tk = X"
    and ns: "X \<in> notifiedSuccess (notifier app)"
    and guard: "X \<in> successLogAdded (notifier app) \<or> hasLauncherSuccessLog (logs app) X"
  defines "friendly \<equiv>
      (if started
       then (case resolved tk r (tunnelCache (notifier app)) of
               None \<Rightarrow> []
             | Some t \<Rightarrow> if web_protocol t
                         then [\<lparr>tunnel_id = X, message = friendlyMessage X t, timestamp = stamp\<rparr>]
                         else [])
       else [])"
  assumes room: "length (logs app) + length friendly \<le> maxLogs"
    and plain: "\<forall>f \<in> set friendly. \<not> str_includes (message f) process_started"
  defines "C \<equiv> resume amb (length ps) r stamp app"
  shows "logs C = logs app @ friendly \<and>
         processedLogsCount (notifier C) = length (logs C) \<and>
         successCount (notifier C) = successCount (notifier app) \<and>
         X \<in> notifiedSuccess (notifier C) \<and>
         (X \<in> successLogAdded (notifier C) \<or> hasLauncherSuccessLog (logs C) X)"
proof (cases started)
  case False
  then have "C = app" using pend by (simp add: C_def resume_def Let_def)
  moreover have "friendly = []" using False by (simp add: friendly_def)
  ultimately show ?thesis using sync ns guard by simp
next
  case True
  define app1 where "app1 = app\<lparr>notifier := (notifier app)\<lparr>pending := ps,
                        tunnelCache := snd (getTunnelById_settle tk r (tunnelCache (notifier app)))\<rparr>\<rparr>"
  have app1: "logs app1 = logs app" "processedLogsCount (notifier app1) = length (logs app1)"
      "successCount (notifier app1) = successCount (notifier app)"
      "X \<in> notifiedSuccess (notifier app1)"
      "successLogAdded (notifier app1) = successLogAdded (notifier app)"
    using sync ns by (simp_all add: app1_def successCount_def)
  have req: "C = (case synthesize X (resolved tk r (tunnelCache (notifier app))) stamp of
         None \<Rightarrow> app1 | Some l \<Rightarrow> addLog amb l app1)"
    unfolding app1_def C_def using resume_last [of app ps tk amb r stamp] pend tk True
    by (simp add: Let_def cong: option.case_cong)
  show ?thesis
  proof (cases "synthesize X (resolved tk r (tunnelCache (notifier app))) stamp")
    case None
    then have "friendly = []"
      using True by (auto simp: friendly_def synthesize_eq split: option.splits if_splits)
    with None req app1 guard show ?thesis by simp
  next
    case (Some l)
    then obtain t where t: "resolved tk r (tunnelCache (notifier app)) = Some t" "web_protocol t"
        "l = \<lparr>tunnel_id = X, message = friendlyMessage X t, timestamp = stamp\<rparr>"
      by (auto simp: synthesize_eq split: option.splits if_splits)
    then have Fl: "friendly = [l]" using True by (simp add: friendly_def)
    have nl: "\<not> str_includes (message l) process_started" "tunnel_id l = X"
      using plain Fl t by simp_all
    have tagged: "hasLauncherSuccessLog (logs app1 @ [l]) X"
      using friendly_tagged [of X t] t by (simp add: hasLauncherSuccessLog_def)
    have room1: "length (logs app1) < maxLogs" using room Fl app1 by simp
    have C_eq: "C = \<lparr>logs = logs app1 @ [l],
        notifier = processLog amb (logs app1 @ [l])
                   ((notifier app1)\<lparr>processedLogsCount := Suc (length (logs app1))\<rparr>) l\<rparr>"
      using req Some addLog_in_step [OF app1(2) room1] by simp
    show ?thesis using app1 nl Fl tagged
      by (simp add: C_eq processLog_successCount_any processLog_notifiedSuccess_any Let_def)
  qed
qed

text \<open>
  C2, as the code has it. The hook is in step with the buffer, and the buffer has room
  for the lines that follow. A launch line of session \<open>X\<close> arrives, then a success line
  of \<open>X\<close>, then whatever else the epoch brings (the second success line of \<open>X\<close> among it),
  and the closure that the epoch has started runs on, before or after any of these
  later lines. In between, the hook may subscribe again and the native layer may emit
  other lines: before the first success line, lines without the success marker that are
  not launch lines of \<open>X\<close>; after it, lines of \<open>X\<close> that are not launch lines and lines of
  other sessions without the success marker. With notifications not suppressed at the
  launch and success lines, exactly one success toast is raised over all of this. The
  buffer gains the native lines, and one friendly line if no friendly line of \<open>X\<close> was
  in the buffer when the first success marker was processed and the session was found
  with protocol http or https; it gains no friendly line otherwise. A further launch
  line of \<open>X\<close>, followed in the same way by a success line, gives exactly one more
  success toast. The friendly line is taken not to carry the launch marker itself (it
  does not when the name and the link of the session do not).
\<close>

theorem one_toast_per_epoch:
  fixes X :: int and app :: App and r :: "Tunnel list outcome" and stamp :: jsstring
    and ac a1 a2 a4 a5 :: Ambient and l1 l2 l4 l5 :: LogMessage
    and m1 m2 m3 m4 :: "(Ambient \<times> event) list"
  assumes sync: "processedLogsCount (notifier app) = length (logs app)"
    and l1: "launch_line X l1" and l2: "success_line X l2"
    and l4: "launch_line X l4" and l5: "success_line X l5"
    and m1: "\<forall>e \<in> set m1. bystander X (snd e)" and m2: "\<forall>e \<in> set m2. absorbed X (snd e)"
    and m3: "\<forall>e \<in> set m3. absorbed X (snd e)" and m4: "\<forall>e \<in> set m4. bystander X (snd e)"
    and a1: "activeTab a1 \<noteq> ascii ''tunnels''" and a2: "activeTab a2 \<noteq> ascii ''tunnels''"
    and a4: "activeTab a4 \<noteq> ascii ''tunnels''" and a5: "activeTab a5 \<noteq> ascii ''tunnels''"
  defines "snap \<equiv> (if str_includes (message l1) mapping_ok then logs app @ [l1]
                    else logs app @ l1 # lines_of m1 @ [l2])"
    and "tk \<equiv> getTunnelById_call (tunnelCache (notifier app))
                (clock (if str_includes (message l1) mapping_ok then a1 else a2)) X"
  defines "friendly \<equiv>
      (if hasLauncherSuccessLog snap X then []
       else case resolved tk r (tunnelCache (notifier app)) of
              None \<Rightarrow> []
            | Some t \<Rightarrow> if web_protocol t
                        then [\<lparr>tunnel_id = X, message = friendlyMessage X t, timestamp = stamp\<rparr>]
                        else [])"
  assumes plain: "\<forall>f \<in> set friendly. \<not> str_includes (message f) process_started"
    and room: "length (logs app) +
               length (l1 # lines_of m1 @ l2 # lines_of m2 @ friendly @ lines_of m3 @
                       l4 # lines_of m4 @ [l5]) \<le> maxLogs"
  defines "first \<equiv> run app ((a1, NativeLog l1) # m1 @ (a2, NativeLog l2) # m2 @
                             (ac, Resume (length (pending (notifier app))) r stamp) # m3)"
  shows "successToasts first = successToasts app + 1 \<and>
         logs first = logs app @ l1 # lines_of m1 @ l2 # lines_of m2 @ friendly @ lines_of m3 \<and>
         length friendly \<le> 1 \<and>
         successToasts (run first ((a4, NativeLog l4) # m4 @ [(a5, NativeLog l5)]))
           = successToasts app + 2"
proof -
  have f1: "tunnel_id l1 = X" "str_includes (message l1) process_started"
    using l1 by (simp_all add: launch_line_def)
  have f2: "tunnel_id l2 = X" "str_includes (message l2) mapping_ok"
      "\<not> str_includes (message l2) process_started"
    using l2 by (simp_all add: success_line_def)
  have f4: "tunnel_id l4 = X" "str_includes (message l4) process_started"
    using l4 by (simp_all add: launch_line_def)
  have f5: "tunnel_id l5 = X" "str_includes (message l5) mapping_ok"
      "\<not> str_includes (message l5) process_started"
    using l5 by (simp_all add: success_line_def)
  have lenF: "length friendly \<le> 1" by (simp add: friendly_def split: option.splits)

  \<comment> \<open>the launch line, up to the first success line\<close>
  define B where "B = run app ((a1, NativeLog l1) # m1 @ [(a2, NativeLog l2)])"
  have roomB: "length (logs app) + length (l1 # lines_of m1 @ [l2]) \<le> maxLogs"
    using room by simp
  have B: "logs B = logs app @ l1 # lines_of m1 @ [l2]"
      "processedLogsCount (notifier B) = length (logs B)"
      "successCount (notifier B) = Suc (successCount (notifier app))"
      "X \<in> notifiedSuccess (notifier B)"
      "X \<in> successLogAdded (notifier B) \<or> hasLauncherSuccessLog (logs B) X"
      "pending (notifier B) =
           pending (notifier app) @ (if hasLauncherSuccessLog snap X then [] else [tk])"
      "tunnelCache (notifier B) = tunnelCache (notifier app)"
    using epoch_open [OF sync roomB f1 m1 f2 a1 a2] unfolding B_def snap_def tk_def by blast+

  \<comment> \<open>the lines before the closure runs on\<close>
  define M where "M = run B m2"
  have roomM: "length (logs B) + length (lines_of m2) \<le> maxLogs" using room B(1) by simp
  have M0: "carries B (lines_of m2) M \<and> X \<in> notifiedSuccess (notifier M) \<and>
         (X \<in> successLogAdded (notifier M) \<or> hasLauncherSuccessLog (logs M) X)"
    unfolding M_def by (rule absorbed_run [OF B(2) roomM m2 B(4) B(5)])
  have M: "logs M = logs app @ l1 # lines_of m1 @ l2 # lines_of m2"
      "processedLogsCount (notifier M) = length (logs M)"
      "successCount (notifier M) = Suc (successCount (notifier app))"
      "pending (notifier M) =
           pending (notifier app) @ (if \<not> hasLauncherSuccessLog snap X then [tk] else [])"
      "tunnelCache (notifier M) = tunnelCache (notifier app)"
    using M0 B by (simp_all add: carries_def)

  \<comment> \<open>the closure\<close>
  define C where "C = resume ac (length (pending (notifier app))) r stamp M"
  have fr: "friendly =
      (if \<not> hasLauncherSuccessLog snap X
       then (case resolved tk r (tunnelCache (notifier M)) of
               None \<Rightarrow> []
             | Some t \<Rightarrow> if web_protocol t
                         then [\<lparr>tunnel_id = X, message = friendlyMessage X t, timestamp = stamp\<rparr>]
                         else [])
       else [])"
    by (simp add: friendly_def M(5))
  have tkX: "lookup_tunnel tk = X" by (simp add: tk_def)
  have roomC: "length (logs M) + length friendly \<le> maxLogs" using room M(1) by simp
  have C0: "logs C = logs M @ friendly \<and>
         processedLogsCount (notifier C) = length (logs C) \<and>
         successCount (notifier C) = successCount (notifier M) \<and>
         X \<in> notifiedSuccess (notifier C) \<and>
         (X \<in> successLogAdded (notifier C) \<or> hasLauncherSuccessLog (logs C) X)"
    unfolding C_def
    using epoch_close [OF M(2) M(4) tkX, where r = r and stamp = stamp and amb = ac] M0 roomC plain
    unfolding fr by blast
  have C1: "logs C = logs app @ l1 # lines_of m1 @ l2 # lines_of m2 @ friendly"
      "successCount (notifier C) = Suc (successCount (notifier app))"
    using C0 M by simp_all
  have C: "processedLogsCount (notifier C) = length (logs C)"
      "X \<in> notifiedSuccess (notifier C)"
      "X \<in> successLogAdded (notifier C) \<or> hasLauncherSuccessLog (logs C) X"
    using C0 by blast+

  \<comment> \<open>the lines after it\<close>
  have first_run: "first = run C m3"
    by (simp add: first_def C_def M_def B_def run_cons run_append run_nil)
  have roomF: "length (logs C) + length (lines_of m3) \<le> maxLogs" using room C1(1) by simp
  have F0: "carries C (lines_of m3) first \<and> X \<in> notifiedSuccess (notifier first) \<and>
         (X \<in> successLogAdded (notifier first) \<or> hasLauncherSuccessLog (logs first) X)"
    unfolding first_run by (rule absorbed_run [OF C(1) roomF m3 C(2) C(3)])
  have F: "logs first = logs app @ l1 # lines_of m1 @ l2 # lines_of m2 @ friendly @ lines_of m3"
      "processedLogsCount (notifier first) = length (logs first)"
      "successCount (notifier first) = Suc (successCount (notifier app))"
    using F0 C C1 by (simp_all add: carries_def)

  \<comment> \<open>the next epoch\<close>
  have roomS: "length (logs first) + length (l4 # lines_of m4 @ [l5]) \<le> maxLogs"
    using room F(1) by simp
  have S: "successCount (notifier (run first ((a4, NativeLog l4) # m4 @ [(a5, NativeLog l5)])))
      = Suc (successCount (notifier first))"
    using epoch_open [OF F(2) roomS f4 m4 f5 a4 a5] by simp
  show ?thesis using F S lenF by (simp add: successToasts_eq)
qed

section \<open>A synthesis that comes to nothing\<close>






section \<open>Composite keys and numeric ids\<close>

lemmas marks = process_started_def mapping_ok_def start_failed_def launcher_tag_def started_ok_def ascii_def

lemma running_keys:
  "promise_all (map (statusTask env) ts) = Resolves d added \<Longrightarrow>
   set (List.map_filter (\<lambda>k. k) added) = tunnelKey ` {t \<in> set ts. reportsRunning env t}"
proof (induction ts arbitrary: d added)
  case Nil
  then show ?case by (simp add: List.map_filter_simps)
next
  case (Cons t ts)
  obtain d1 b where w: "withTimeout (queryRunning env t) 3000 = Resolves d1 b"
    using withTimeout_resolves by blast
  obtain d2 ks where ks: "promise_all (map (statusTask env) ts) = Resolves d2 ks"
    using status_phase_resolves by blast
  have st: "statusTask env t = Resolves d1 (if b then Some (tunnelKey t) else None)"
    using w by (simp add: statusTask_def and_then_def)
  have added: "added = (if b then Some (tunnelKey t) else None) # ks"
    using Cons.prems st ks by (simp add: and_then_def both_def)
  have "reportsRunning env t = b" using w by (simp add: reportsRunning_def)
  then show ?case using Cons.IH [OF ks] added by (auto simp: List.map_filter_simps)
qed

text \<open>
  C3, as the code has it. Two sessions have the same composite key only if they are of
  the same kind and have the same id, so in the running set that \<^verbatim>\<open>loadTunnels\<close>
  computes (the keys of the sessions that answer as running) sessions of different
  kinds never collide. The notification dedup sets are sets of numbers: a line is
  keyed by its \<^verbatim>\<open>tunnel_id\<close> alone, which is the id of the session whatever its kind.
\<close>

theorem composite_keys_collision_free:
  "(tunnelKey t = tunnelKey t' \<longleftrightarrow>
     (case t of
        Api a \<Rightarrow> (case t' of Api b \<Rightarrow> tid a = tid b | Custom c \<Rightarrow> False)
      | Custom c \<Rightarrow> (case t' of Api b \<Rightarrow> False | Custom c' \<Rightarrow> cid c = cid c'))) \<and>
   runningTunnels (loadTunnels (Resolves d1 apiTunnels) (Resolves d2 customTunnels) env st) =
     tunnelKey ` {tunnel \<in> set (map Api apiTunnels @ map Custom customTunnels). reportsRunning env tunnel} \<and>
   tunnel_id (logLineOf (Api a) msg stamp) = tid a \<and>
   tunnel_id (logLineOf (Custom c) msg stamp) = cid c"
proof -
  obtain d ks where l: "loadTunnels (Resolves d1 apiTunnels) (Resolves d2 customTunnels) env st =
     st\<lparr>loading := False, error := [],
        tunnels := map Api (settled (Resolves d1 apiTunnels)) @ map Custom (settled (Resolves d2 customTunnels)),
        tunnelListCache := settled (Resolves d1 apiTunnels),
        runningTunnels := set (List.map_filter (\<lambda>k. k) ks)\<rparr>"
    and p: "promise_all (map (statusTask env)
              (map Api (settled (Resolves d1 apiTunnels)) @ map Custom (settled (Resolves d2 customTunnels))))
            = Resolves d ks"
    using loadTunnels_settled [of "Resolves d1 apiTunnels" "Resolves d2 customTunnels" env st] by auto
  have "runningTunnels (loadTunnels (Resolves d1 apiTunnels) (Resolves d2 customTunnels) env st) =
     tunnelKey ` {tunnel \<in> set (map Api apiTunnels @ map Custom customTunnels). reportsRunning env tunnel}"
    using running_keys [OF p] by (simp add: l settled_def)
  then show ?thesis using tunnelKey_eq [of t t'] by (simp add: logLineOf_def)
qed

text \<open>
  C3 as stated fails for the dedup sets. A provisioned session and a custom session
  both have id 7; their composite keys differ, but their lines carry the same
  \<^verbatim>\<open>tunnel_id\<close>. The success line of the first raises a toast and enters 7 in the
  success set; the success line of the second then raises none.
\<close>

theorem dedup_sets_keyed_by_number:
  "tunnelKey (Api tcp7) \<noteq> tunnelKey (Custom custom7) \<and>
   tunnel_id (logLineOf (Api tcp7) mapping_ok []) = tunnel_id (logLineOf (Custom custom7) mapping_ok []) \<and>
   notifiedSuccess (notifier (run fresh [(home, NativeLog (logLineOf (Api tcp7) mapping_ok []))])) = {7} \<and>
   successToasts (run fresh [(home, NativeLog (logLineOf (Api tcp7) mapping_ok []))]) = 1 \<and>
   successToasts (run fresh [(home, NativeLog (logLineOf (Api tcp7) mapping_ok [])),
                             (home, NativeLog (logLineOf (Custom custom7) mapping_ok []))]) = 1"
  by (simp add: tunnelKey_eq run_def addLog_in_step fresh_def maxLogs_def logLineOf_def tcp7_def custom7_def
      home_def successToasts_def successCount_def processLog_def Let_def playTunnelSound_def
      hasLauncherSuccessLog_def getTunnelById_call_def marks)

section \<open>Runs on example sessions\<close>

lemmas notifier_defs = run_def addLog_in_step fresh_def maxLogs_def emitted_def home_def
  processLog_def Let_def playTunnelSound_def hasLauncherSuccessLog_def getTunnelById_call_def marks

lemma resolved_web7:
  "resolved (getTunnelById_call (tunnelCache (notifier fresh)) (clock home) 7) (Fetched [web7])
     (tunnelCache (notifier fresh)) = Some web7"
  by (simp add: resolved_def getTunnelById_call_def getTunnelById_settle_def fresh_def home_def web7_def)

lemma web7_web: "web_protocol web7"
  by (simp add: web_protocol_def web7_def toLowerCase_def ascii_def)

text \<open>
  C5. The one-shot flag is set only when a call of \<^verbatim>\<open>autoStart\<close> returns. The catalog
  holds one provisioned session, flagged for auto-start and not running. The hook
  mounts with the catalog loaded, \<^verbatim>\<open>loading\<close> goes on and off again while the first
  call is still waiting, and the effect starts a second call: both calls issue
  \<^verbatim>\<open>toggle(tunnel, true)\<close> for the session. When \<^verbatim>\<open>loading\<close> goes on and off only
  after the first call has returned, the flag holds the effect back and the session is
  toggled once.
\<close>

theorem second_autostart_run_toggles:
  "toggled (foldl (advance (\<lambda>t. False)) mount
      [Render False [Api web7] {}, Render True [Api web7] {}, Render False [Api web7] {},
       ListSettled 0 (Some [(ascii ''api'', 7)]) (Some (ascii ''token'')),
       ListSettled 1 (Some [(ascii ''api'', 7)]) (Some (ascii ''token'')),
       TimerFired 0, TimerFired 1]) = [(0, Api web7), (1, Api web7)] \<and>
   calls (foldl (advance (\<lambda>t. False)) mount
      [Render False [Api web7] {}, Render True [Api web7] {}, Render False [Api web7] {}])
     = [AwaitingList, AwaitingList] \<and>
   toggled (foldl (advance (\<lambda>t. False)) mount
      [Render False [Api web7] {},
       ListSettled 0 (Some [(ascii ''api'', 7)]) (Some (ascii ''token'')),
       TimerFired 0, TimerFired 0,
       Render True [Api web7] {}, Render False [Api web7] {}]) = [(0, Api web7)] \<and>
   calls (foldl (advance (\<lambda>t. False)) mount
      [Render False [Api web7] {},
       ListSettled 0 (Some [(ascii ''api'', 7)]) (Some (ascii ''token'')),
       TimerFired 0, TimerFired 0,
       Render True [Api web7] {}, Render False [Api web7] {}]) = [Returned]"
  by (simp add: mount_def render_def effect_def listSettled_def timerFired_def markDone_def
      tunnelKey_def number_text_def digits.simps ascii_def Let_def web7_def)

text \<open>
  C4 as stated fails for a session that is not http or https. A success line of session
  7 arrives at a fresh store: no friendly line is in the buffer, and a closure is
  started. It finds session 7 with protocol tcp and appends nothing.
\<close>

theorem no_friendly_line_for_tcp:
  "str_includes (message (emitted 7 mapping_ok)) mapping_ok \<and>
   \<not> hasLauncherSuccessLog [emitted 7 mapping_ok] 7 \<and>
   pending (notifier (run fresh [(home, NativeLog (emitted 7 mapping_ok))]))
     = [Fetching 7 1000000 \<lparr>updatedAt = 0, cached = []\<rparr>] \<and>
   logs (run fresh [(home, NativeLog (emitted 7 mapping_ok)), (home, Resume 0 (Fetched [tcp7]) [])])
     = [emitted 7 mapping_ok]"
  by (simp add: notifier_defs resume_def getTunnelById_settle_def synthesize_def toLowerCase_def tcp7_def)

text \<open>
  C2 as stated fails for a session that is not http or https: after the launch line,
  the success line, the closure and the second success line of a tcp session, the
  buffer holds the three native lines and no friendly line.
\<close>

theorem no_friendly_line_in_tcp_epoch:
  "launch_line 7 (emitted 7 process_started) \<and> success_line 7 (emitted 7 mapping_ok) \<and>
   activeTab home \<noteq> ascii ''tunnels'' \<and>
   logs (run fresh [(home, NativeLog (emitted 7 process_started)), (home, NativeLog (emitted 7 mapping_ok)),
                    (home, Resume 0 (Fetched [tcp7]) []), (home, NativeLog (emitted 7 mapping_ok))])
     = [emitted 7 process_started, emitted 7 mapping_ok, emitted 7 mapping_ok]"
  by (simp add: notifier_defs launch_line_def success_line_def resume_def getTunnelById_settle_def
      synthesize_def toLowerCase_def tcp7_def)

text \<open>
  Runs in which the first epoch of session 7 does not end with one success toast raised:
  the second success line also carries the launch marker; the name of the session, and
  so the friendly line, carries the launch marker; a success line of session 9 comes in
  between and raises a toast of its own; the hook is not in step with the buffer, the
  log having been cleared.
\<close>

lemma epoch_conditions_needed:
  "successToasts (run fresh [(home, NativeLog (emitted 7 process_started)),
                             (home, NativeLog (emitted 7 mapping_ok)),
                             (home, Resume 0 (Fetched [web7]) []),
                             (home, NativeLog (emitted 7 (mapping_ok @ process_started)))]) = 2 \<and>
   successToasts (run fresh [(home, NativeLog (emitted 7 process_started)),
                             (home, NativeLog (emitted 7 mapping_ok)),
                             (home, Resume 0 (Fetched [odd7]) []),
                             (home, NativeLog (emitted 7 mapping_ok))]) = 2 \<and>
   successToasts (run fresh [(home, NativeLog (emitted 7 process_started)),
                             (home, NativeLog (emitted 7 mapping_ok)),
                             (home, NativeLog (emitted 9 mapping_ok)),
                             (home, NativeLog (emitted 7 mapping_ok))]) = 2 \<and>
   successToasts (run fresh [(home, NativeLog (emitted 1 [])), (home, NativeLog (emitted 1 [])),
                             (home, NativeLog (emitted 1 [])), (home, ClearLogs),
                             (home, NativeLog (emitted 7 process_started)),
                             (home, NativeLog (emitted 7 mapping_ok)),
                             (home, NativeLog (emitted 7 mapping_ok))]) = 0"
proof -
  have "successToasts (run fresh [(home, NativeLog (emitted 1 [])), (home, NativeLog (emitted 1 [])),
                             (home, NativeLog (emitted 1 [])), (home, ClearLogs),
                             (home, NativeLog (emitted 7 process_started)),
                             (home, NativeLog (emitted 7 mapping_ok)),
                             (home, NativeLog (emitted 7 mapping_ok))]) = 0"
    by (simp add: run_def fresh_def addLog_def notifyListeners_def onLogs_def pushLog_def trimLogs_def
        slice_last_def maxLogs_def clearLogs_def processLog_def Let_def emitted_def home_def
        playTunnelSound_def hasLauncherSuccessLog_def marks successToasts_def successCount_def)
  then show ?thesis
    by (simp add: notifier_defs successToasts_def successCount_def resume_def getTunnelById_settle_def
      synthesize_def toLowerCase_def web7_def odd7_def friendlyMessage_def friendly_head_def
      friendly_link_def friendly_link_end_def friendly_plain_end_def)
qed

text \<open>
  A store after 4999 lines of session 1 and then a success line of session 7: the
  buffer is full, the cursor is at the capacity, and the closure for session 7 is under
  way.
\<close>

lemma brim:
  defines "app \<equiv> run fresh (replicate 4999 (home, NativeLog (emitted 1 [])) @
                            [(home, NativeLog (emitted 7 mapping_ok))])"
  shows "logs app = replicate 4999 (emitted 1 []) @ [emitted 7 mapping_ok]"
    "processedLogsCount (notifier app) = 5000"
    "pending (notifier app) = [Fetching 7 1000000 \<lparr>updatedAt = 0, cached = []\<rparr>]"
    "tunnelCache (notifier app) = \<lparr>updatedAt = 0, cached = []\<rparr>"
    "successCount (notifier app) = 1"
proof -
  define m where "m = replicate 4999 (home, NativeLog (emitted 1 []))"
  have bys: "\<forall>e \<in> set m. bystander 7 (snd e)"
    by (simp add: m_def emitted_def marks)
  have c: "carries fresh (lines_of m) (run fresh m) \<and>
         (7 \<in> notifiedSuccess (notifier (run fresh m)) \<longleftrightarrow> 7 \<in> notifiedSuccess (notifier fresh)) \<and>
         (7 \<in> successLogAdded (notifier (run fresh m)) \<longleftrightarrow> 7 \<in> successLogAdded (notifier fresh))"
    by (rule bystander_run) (use bys in \<open>simp_all add: m_def maxLogs_def lines_of_replicate\<close>)
  have l: "lines_of m = replicate 4999 (emitted 1 [])" by (simp add: m_def lines_of_replicate)
  have f: "logs (run fresh m) = replicate 4999 (emitted 1 [])"
     "processedLogsCount (notifier (run fresh m)) = length (logs (run fresh m))"
     "pending (notifier (run fresh m)) = []" "tunnelCache (notifier (run fresh m)) = \<lparr>updatedAt = 0, cached = []\<rparr>"
     "7 \<notin> successLogAdded (notifier (run fresh m))" "7 \<notin> notifiedSuccess (notifier (run fresh m))"
     "successCount (notifier (run fresh m)) = 0"
    using c l by (simp_all add: carries_def) (simp add: fresh_def)
  have nohas: "\<not> hasLauncherSuccessLog (replicate 4999 (emitted 1 []) @ [emitted 7 mapping_ok]) 7"
    by (simp add: hasLauncherSuccessLog_def emitted_def marks)
  have mk: "str_includes (message (emitted 7 mapping_ok)) mapping_ok" "tunnel_id (emitted 7 mapping_ok) = 7"
      "\<not> str_includes (message (emitted 7 mapping_ok)) process_started"
      "activeTab home \<noteq> ascii ''tunnels''" "clock home = 1000000"
    by (simp_all add: emitted_def marks home_def)
  have app: "app = addLog home (emitted 7 mapping_ok) (run fresh m)"
    by (simp add: app_def run_append m_def run_one)
  have room: "length (logs (run fresh m)) < maxLogs" using f by (simp add: maxLogs_def)
  note st = addLog_in_step [OF f(2) room, of home "emitted 7 mapping_ok"]
  show "logs app = replicate 4999 (emitted 1 []) @ [emitted 7 mapping_ok]"
    using st f by (simp add: app)
  show "processedLogsCount (notifier app) = 5000" using st f by (simp add: app)
  show "pending (notifier app) = [Fetching 7 1000000 \<lparr>updatedAt = 0, cached = []\<rparr>]"
    using st f nohas mk by (simp add: app processLog_pending getTunnelById_call_def)
  show "tunnelCache (notifier app) = \<lparr>updatedAt = 0, cached = []\<rparr>" using st f by (simp add: app)
  show "successCount (notifier app) = 1"
    using st f mk by (simp add: app processLog_successCount_any)
qed

text \<open>
  C9 as stated fails for a closure that is under way when the buffer fills up. The
  5000th line is a success line of session 7 and starts a closure. With the cursor at
  the capacity the closure finds the session, an http one, and its friendly line
  is appended, the oldest line being dropped.
\<close>

theorem friendly_line_after_capacity:
  "length (logs (run fresh (replicate 4999 (home, NativeLog (emitted 1 [])) @
                            [(home, NativeLog (emitted 7 mapping_ok))]))) = maxLogs \<and>
   processedLogsCount (notifier (run fresh (replicate 4999 (home, NativeLog (emitted 1 [])) @
                            [(home, NativeLog (emitted 7 mapping_ok))]))) = maxLogs \<and>
   logs (run (run fresh (replicate 4999 (home, NativeLog (emitted 1 [])) @
                            [(home, NativeLog (emitted 7 mapping_ok))]))
          [(home, Resume 0 (Fetched [web7]) [])])
     = replicate 4998 (emitted 1 []) @
       [emitted 7 mapping_ok, \<lparr>tunnel_id = 7, message = friendlyMessage 7 web7, timestamp = []\<rparr>]"
proof -
  define app where "app = run fresh (replicate 4999 (home, NativeLog (emitted 1 [])) @
                            [(home, NativeLog (emitted 7 mapping_ok))])"
  note b = brim [folded app_def]
  have res: "resolved (Fetching 7 1000000 \<lparr>updatedAt = 0, cached = []\<rparr>) (Fetched [web7])
      \<lparr>updatedAt = 0, cached = []\<rparr> = Some web7"
    by (simp add: resolved_def getTunnelById_settle_def web7_def)
  define app1 where "app1 = app\<lparr>notifier := (notifier app)\<lparr>pending := [],
       tunnelCache := snd (getTunnelById_settle (Fetching 7 1000000 \<lparr>updatedAt = 0, cached = []\<rparr>)
                              (Fetched [web7]) (tunnelCache (notifier app)))\<rparr>\<rparr>"
  have r: "resume home 0 (Fetched [web7]) [] app =
      addLog home \<lparr>tunnel_id = 7, message = friendlyMessage 7 web7, timestamp = []\<rparr> app1"
    using resume_last [of app "[]" "Fetching 7 1000000 \<lparr>updatedAt = 0, cached = []\<rparr>" home "Fetched [web7]" "[]"]
    unfolding app1_def by (simp add: b res synthesize_eq web7_web Let_def)
  have a1: "length (logs app1) \<le> maxLogs" "maxLogs \<le> processedLogsCount (notifier app1)"
      "logs app1 = replicate 4999 (emitted 1 []) @ [emitted 7 mapping_ok]"
    using b by (simp_all add: app1_def maxLogs_def)
  have "replicate 4999 (emitted 1 []) = emitted 1 [] # replicate 4998 (emitted 1 [])"
    by (simp add: replicate_Suc [symmetric] del: replicate_Suc)
  then have "logs (resume home 0 (Fetched [web7]) [] app) = replicate 4998 (emitted 1 []) @
       [emitted 7 mapping_ok, \<lparr>tunnel_id = 7, message = friendlyMessage 7 web7, timestamp = []\<rparr>]"
    using a1 by (simp add: r addLog_skip pushLog_eq slice_last_def maxLogs_def)
  then show ?thesis using b unfolding app_def [symmetric] by (simp add: run_one maxLogs_def)
qed



section \<open>The theorems at concrete inputs\<close>

lemma waiting7_eq:
  "waiting7 = \<lparr>logs = [emitted 7 mapping_ok],
       notifier = \<lparr>processedLogsCount = 1, notifiedSuccess = {7}, notifiedError = {},
                   successLogAdded = {7}, tunnelCache = \<lparr>updatedAt = 0, cached = []\<rparr>,
                   pending = [Fetching 7 1000000 \<lparr>updatedAt = 0, cached = []\<rparr>],
                   toasts = [ToastSuccess], sounds = [SoundSuccess]\<rparr>\<rparr>"
  by (simp add: waiting7_def notifier_defs)



text \<open>
  C2, as the code has it, at concrete inputs. Session 7, an http session, at a fresh
  store, the closure running on before the second success line. And the same session at
  a store that has seen a success line of it already: the launch line carries the
  launcher's tag as well, a line of session 9 and a new subscription come before the
  first success line, and the closure runs on after the second.
\<close>

theorem one_toast_per_epoch_witness:
  "successToasts (run fresh [(home, NativeLog (emitted 7 process_started)),
                             (home, NativeLog (emitted 7 mapping_ok)),
                             (home, Resume 0 (Fetched [web7]) []),
                             (home, NativeLog (emitted 7 mapping_ok))]) = 1 \<and>
   logs (run fresh [(home, NativeLog (emitted 7 process_started)),
                    (home, NativeLog (emitted 7 mapping_ok)),
                    (home, Resume 0 (Fetched [web7]) []),
                    (home, NativeLog (emitted 7 mapping_ok))])
     = [emitted 7 process_started, emitted 7 mapping_ok,
        \<lparr>tunnel_id = 7, message = friendlyMessage 7 web7, timestamp = []\<rparr>, emitted 7 mapping_ok] \<and>
   successToasts (run (run fresh [(home, NativeLog (emitted 7 process_started)),
                                  (home, NativeLog (emitted 7 mapping_ok)),
                                  (home, Resume 0 (Fetched [web7]) []),
                                  (home, NativeLog (emitted 7 mapping_ok))])
                      [(home, NativeLog (emitted 7 process_started)),
                       (home, NativeLog (emitted 7 mapping_ok))]) = 2 \<and>
   successToasts waiting7 = 1 \<and>
   successToasts (run waiting7 [(home, NativeLog (emitted 7 (launcher_tag @ process_started))),
                                (home, NativeLog (emitted 9 process_started)), (home, Subscribe),
                                (home, NativeLog (emitted 7 mapping_ok)),
                                (home, NativeLog (emitted 7 mapping_ok)),
                                (home, Resume 1 (Fetched [web7]) []),
                                (home, NativeLog (emitted 9 start_failed))]) = 2 \<and>
   logs (run waiting7 [(home, NativeLog (emitted 7 (launcher_tag @ process_started))),
                       (home, NativeLog (emitted 9 process_started)), (home, Subscribe),
                       (home, NativeLog (emitted 7 mapping_ok)),
                       (home, NativeLog (emitted 7 mapping_ok)),
                       (home, Resume 1 (Fetched [web7]) []),
                       (home, NativeLog (emitted 9 start_failed))])
     = [emitted 7 mapping_ok, emitted 7 (launcher_tag @ process_started), emitted 9 process_started,
        emitted 7 mapping_ok, emitted 7 mapping_ok,
        \<lparr>tunnel_id = 7, message = friendlyMessage 7 web7, timestamp = []\<rparr>,
        emitted 9 start_failed] \<and>
   successToasts (run (run waiting7 [(home, NativeLog (emitted 7 (launcher_tag @ process_started))),
                                     (home, NativeLog (emitted 9 process_started)), (home, Subscribe),
                                     (home, NativeLog (emitted 7 mapping_ok)),
                                     (home, NativeLog (emitted 7 mapping_ok)),
                                     (home, Resume 1 (Fetched [web7]) []),
                                     (home, NativeLog (emitted 9 start_failed))])
                      [(home, NativeLog (emitted 7 process_started)),
                       (home, NativeLog (emitted 9 [])),
                       (home, NativeLog (emitted 7 mapping_ok))]) = 3"
proof -
  have launch: "launch_line 7 (emitted 7 process_started)"
      "launch_line 7 (emitted 7 (launcher_tag @ process_started))"
    by (simp_all add: launch_line_def emitted_def marks)
  have success: "success_line 7 (emitted 7 mapping_ok)"
    by (simp add: success_line_def emitted_def marks)
  have tab: "activeTab home \<noteq> ascii ''tunnels''"
    by (simp add: home_def ascii_def)
  have none: "\<forall>e \<in> set []. bystander 7 (snd e)" "\<forall>e \<in> set []. absorbed 7 (snd e)"
    by simp_all
  have m1: "\<forall>e \<in> set [(home, NativeLog (emitted 9 process_started)), (home, Subscribe)].
      bystander 7 (snd e)"
    by (simp add: emitted_def marks)
  have m2: "\<forall>e \<in> set [(home, NativeLog (emitted 7 mapping_ok))]. absorbed 7 (snd e)"
    by (simp add: emitted_def marks)
  have m3: "\<forall>e \<in> set [(home, NativeLog (emitted 9 start_failed))]. absorbed 7 (snd e)"
    by (simp add: emitted_def marks)
  have m4: "\<forall>e \<in> set [(home, NativeLog (emitted 9 []))]. bystander 7 (snd e)"
    by (simp add: emitted_def marks)
  have plain7: "\<not> str_includes (friendlyMessage 7 web7) process_started"
    by (rule friendly_without_launch_marker) (simp_all add: web7_def marks)
  have sync: "processedLogsCount (notifier fresh) = length (logs fresh)"
      "processedLogsCount (notifier waiting7) = length (logs waiting7)"
    by (simp_all add: waiting7_eq)
  have nohas: "\<not> hasLauncherSuccessLog [emitted 7 process_started, emitted 7 mapping_ok] 7"
      "\<not> hasLauncherSuccessLog [emitted 7 mapping_ok, emitted 7 (launcher_tag @ process_started),
          emitted 9 process_started, emitted 7 mapping_ok] 7"
    by (simp_all add: hasLauncherSuccessLog_def emitted_def marks)
  have marker: "\<not> str_includes (message (emitted 7 process_started)) mapping_ok"
      "\<not> str_includes (message (emitted 7 (launcher_tag @ process_started))) mapping_ok"
    by (simp_all add: emitted_def marks)
  have res: "resolved (getTunnelById_call (tunnelCache (notifier waiting7)) (clock home) 7) (Fetched [web7])
     (tunnelCache (notifier waiting7)) = Some web7"
    by (simp add: resolved_def getTunnelById_call_def getTunnelById_settle_def waiting7_eq home_def web7_def)
  have w: "logs waiting7 = [emitted 7 mapping_ok]" "pending (notifier waiting7) = [Fetching 7 1000000 \<lparr>updatedAt = 0, cached = []\<rparr>]"
      "successToasts waiting7 = 1"
    by (simp_all add: waiting7_eq successToasts_def successCount_def)
  have early: "successToasts (run fresh [(home, NativeLog (emitted 7 process_started)),
                             (home, NativeLog (emitted 7 mapping_ok)),
                             (home, Resume 0 (Fetched [web7]) []),
                             (home, NativeLog (emitted 7 mapping_ok))]) = 1 \<and>
   logs (run fresh [(home, NativeLog (emitted 7 process_started)),
                    (home, NativeLog (emitted 7 mapping_ok)),
                    (home, Resume 0 (Fetched [web7]) []),
                    (home, NativeLog (emitted 7 mapping_ok))])
     = [emitted 7 process_started, emitted 7 mapping_ok,
        \<lparr>tunnel_id = 7, message = friendlyMessage 7 web7, timestamp = []\<rparr>, emitted 7 mapping_ok] \<and>
   successToasts (run (run fresh [(home, NativeLog (emitted 7 process_started)),
                                  (home, NativeLog (emitted 7 mapping_ok)),
                                  (home, Resume 0 (Fetched [web7]) []),
                                  (home, NativeLog (emitted 7 mapping_ok))])
                      [(home, NativeLog (emitted 7 process_started)),
                       (home, NativeLog (emitted 7 mapping_ok))]) = 2"
    using one_toast_per_epoch [OF sync(1) launch(1) success launch(1) success none(1) none(2) m2 none(1) tab tab tab tab,
        where r = "Fetched [web7]" and stamp = "[]" and ac = home]
    by (simp add: marker nohas resolved_web7 web7_web plain7 maxLogs_def successToasts_eq)
  have late: "successToasts (run waiting7 [(home, NativeLog (emitted 7 (launcher_tag @ process_started))),
                                (home, NativeLog (emitted 9 process_started)), (home, Subscribe),
                                (home, NativeLog (emitted 7 mapping_ok)),
                                (home, NativeLog (emitted 7 mapping_ok)),
                                (home, Resume 1 (Fetched [web7]) []),
                                (home, NativeLog (emitted 9 start_failed))]) = 2 \<and>
   logs (run waiting7 [(home, NativeLog (emitted 7 (launcher_tag @ process_started))),
                       (home, NativeLog (emitted 9 process_started)), (home, Subscribe),
                       (home, NativeLog (emitted 7 mapping_ok)),
                       (home, NativeLog (emitted 7 mapping_ok)),
                       (home, Resume 1 (Fetched [web7]) []),
                       (home, NativeLog (emitted 9 start_failed))])
     = [emitted 7 mapping_ok, emitted 7 (launcher_tag @ process_started), emitted 9 process_started,
        emitted 7 mapping_ok, emitted 7 mapping_ok,
        \<lparr>tunnel_id = 7, message = friendlyMessage 7 web7, timestamp = []\<rparr>,
        emitted 9 start_failed] \<and>
   successToasts (run (run waiting7 [(home, NativeLog (emitted 7 (launcher_tag @ process_started))),
                                     (home, NativeLog (emitted 9 process_started)), (home, Subscribe),
                                     (home, NativeLog (emitted 7 mapping_ok)),
                                     (home, NativeLog (emitted 7 mapping_ok)),
                                     (home, Resume 1 (Fetched [web7]) []),
                                     (home, NativeLog (emitted 9 start_failed))])
                      [(home, NativeLog (emitted 7 process_started)),
                       (home, NativeLog (emitted 9 [])),
                       (home, NativeLog (emitted 7 mapping_ok))]) = 3"
    using one_toast_per_epoch [OF sync(2) launch(2) success launch(1) success m1 m2 m3 m4 tab tab tab tab,
        where r = "Fetched [web7]" and stamp = "[]" and ac = home]
    by (simp add: marker nohas res web7_web plain7 maxLogs_def w)
  show ?thesis using early late w(3) by blast
qed

text \<open>
  C4, as the code has it, at a concrete input: a success line of session 7 at a fresh
  store, the session being an http one, and being a tcp one.
\<close>

theorem friendly_line_for_web_sessions_witness:
  "pending (notifier (addLog home (emitted 7 mapping_ok) fresh))
     = [Fetching 7 1000000 \<lparr>updatedAt = 0, cached = []\<rparr>] \<and>
   logs (resume home 0 (Fetched [web7]) [] (addLog home (emitted 7 mapping_ok) fresh))
     = [emitted 7 mapping_ok, \<lparr>tunnel_id = 7, message = friendlyMessage 7 web7, timestamp = []\<rparr>] \<and>
   logs (resume home 0 (Fetched [tcp7]) [] (addLog home (emitted 7 mapping_ok) fresh))
     = [emitted 7 mapping_ok]"
proof -
  have sync: "processedLogsCount (notifier fresh) = length (logs fresh)" by (simp add: fresh_def)
  have room: "Suc (length (logs fresh)) < maxLogs" by (simp add: fresh_def maxLogs_def)
  have marker: "str_includes (message (emitted 7 mapping_ok)) mapping_ok"
    by (simp add: emitted_def marks)
  have nofriendly: "\<not> hasLauncherSuccessLog (logs fresh @ [emitted 7 mapping_ok]) (tunnel_id (emitted 7 mapping_ok))"
    by (simp add: hasLauncherSuccessLog_def fresh_def emitted_def marks)
  have notyet: "tunnel_id (emitted 7 mapping_ok) \<notin> successLogAdded (notifier fresh)"
    by (simp add: fresh_def)
  have tcp: "resolved (getTunnelById_call (tunnelCache (notifier fresh)) (clock home) 7) (Fetched [tcp7])
     (tunnelCache (notifier fresh)) = Some tcp7" "\<not> web_protocol tcp7"
    by (simp_all add: resolved_def getTunnelById_call_def getTunnelById_settle_def fresh_def home_def
        tcp7_def web_protocol_def toLowerCase_def ascii_def)
  have id7: "tunnel_id (emitted 7 mapping_ok) = 7" by (simp add: emitted_def)
  have call: "getTunnelById_call (tunnelCache (notifier fresh)) (clock home) 7
      = Fetching 7 1000000 \<lparr>updatedAt = 0, cached = []\<rparr>"
    by (simp add: getTunnelById_call_def fresh_def home_def)
  note web = friendly_line_for_web_sessions [OF sync room marker nofriendly notyet,
      of home home "Fetched [web7]" "[]"]
  note tcp' = friendly_line_for_web_sessions [OF sync room marker nofriendly notyet,
      of home home "Fetched [tcp7]" "[]"]
  have "pending (notifier (addLog home (emitted 7 mapping_ok) fresh))
     = [Fetching 7 1000000 \<lparr>updatedAt = 0, cached = []\<rparr>]"
    using web by (simp add: id7 call)
  moreover have "logs (resume home 0 (Fetched [web7]) [] (addLog home (emitted 7 mapping_ok) fresh))
     = [emitted 7 mapping_ok, \<lparr>tunnel_id = 7, message = friendlyMessage 7 web7, timestamp = []\<rparr>]"
    using web by (simp add: id7 resolved_web7 web7_web)
  moreover have "logs (resume home 0 (Fetched [tcp7]) [] (addLog home (emitted 7 mapping_ok) fresh))
     = [emitted 7 mapping_ok]"
    using tcp' by (simp add: id7 tcp)
  ultimately show ?thesis by blast
qed

text \<open>
  C7 at a concrete input: the provisioned source fails, the custom source returns three
  sessions.
\<close>

theorem catalog_fault_isolation_witness:
  "tunnels (loadTunnels (Rejects 10 None) (Resolves 20 [\<lparr>cid = 1\<rparr>, \<lparr>cid = 2\<rparr>, \<lparr>cid = 3\<rparr>]) unreachable idle)
     = [Custom \<lparr>cid = 1\<rparr>, Custom \<lparr>cid = 2\<rparr>, Custom \<lparr>cid = 3\<rparr>] \<and>
   error (loadTunnels (Rejects 10 None) (Resolves 20 [\<lparr>cid = 1\<rparr>, \<lparr>cid = 2\<rparr>, \<lparr>cid = 3\<rparr>]) unreachable idle) = [] \<and>
   \<not> loading (loadTunnels (Rejects 10 None) (Resolves 20 [\<lparr>cid = 1\<rparr>, \<lparr>cid = 2\<rparr>, \<lparr>cid = 3\<rparr>]) unreachable idle)"
  using catalog_fault_isolation [of "Rejects 10 None" "Resolves 20 [\<lparr>cid = 1\<rparr>, \<lparr>cid = 2\<rparr>, \<lparr>cid = 3\<rparr>]"
      unreachable idle]
  by (simp add: settled_def)

text \<open>
  C9, as the code has it, at a concrete input: a full buffer of 5000 lines delivered to
  a fresh hook, and success lines arriving afterwards, with and without a clear.
\<close>

theorem cursor_never_rolls_back_witness:
  "processedLogsCount (onLogs home (replicate 5000 (emitted 1 [])) (notifier fresh)) = 5000 \<and>
   onLogs home [emitted 7 mapping_ok] (notifier full) = notifier full \<and>
   onLogs home ([emitted 7 mapping_ok] @ [emitted 7 mapping_ok]) (notifier waiting7) =
     foldl (processLog home ([emitted 7 mapping_ok] @ [emitted 7 mapping_ok]))
       ((notifier waiting7)\<lparr>processedLogsCount := length ([emitted 7 mapping_ok] @ [emitted 7 mapping_ok])\<rparr>)
       [emitted 7 mapping_ok] \<and>
   notifier (run (clearLogs home full) [(home, NativeLog (emitted 7 mapping_ok))]) = notifier full \<and>
   silent (notifier full) (notifier (run full [(home, NativeLog (emitted 7 mapping_ok)), (home, ClearLogs),
                                               (home, NativeLog (emitted 7 mapping_ok))])) \<and>
   synthesized full [(home, NativeLog (emitted 7 mapping_ok)), (home, ClearLogs),
                     (home, NativeLog (emitted 7 mapping_ok))] = [] \<and>
   set (logs (run full [(home, NativeLog (emitted 7 mapping_ok)), (home, ClearLogs),
                        (home, NativeLog (emitted 7 mapping_ok))]))
     \<subseteq> {emitted 1 [], emitted 7 mapping_ok}"
proof -
  have cap: "length (logs full) \<le> maxLogs \<and> maxLogs \<le> processedLogsCount (notifier full)"
      "pending (notifier full) = []" "set (logs full) = {emitted 1 []}"
    by (simp_all add: full_def fresh_def maxLogs_def)
  have skip: "length [emitted 7 mapping_ok] \<le> processedLogsCount (notifier full)"
      "length [(home, NativeLog (emitted 7 mapping_ok))] \<le> processedLogsCount (notifier full) \<and>
       list_all (\<lambda>e. native (snd e)) [(home, NativeLog (emitted 7 mapping_ok))]"
    by (simp_all add: full_def fresh_def)
  have step7: "length [emitted 7 mapping_ok] = processedLogsCount (notifier waiting7) \<and>
      [emitted 7 mapping_ok] \<noteq> []"
    by (simp add: waiting7_eq)
  have first: "processedLogsCount (onLogs home (replicate 5000 (emitted 1 [])) (notifier fresh)) = 5000"
    using cursor_never_rolls_back [where amb = home and snap = "replicate 5000 (emitted 1 [])" and s = "notifier fresh"]
    by (simp add: fresh_def)
  note at_full = cursor_never_rolls_back [where amb = home and snap = "[emitted 7 mapping_ok]" and s = "notifier full"
      and evs = "[(home, NativeLog (emitted 7 mapping_ok))]" and app = full
      and evs' = "[(home, NativeLog (emitted 7 mapping_ok)), (home, ClearLogs),
                   (home, NativeLog (emitted 7 mapping_ok))]"]
  note at_waiting = cursor_never_rolls_back [where amb = home and s = "notifier waiting7"
      and before = "[emitted 7 mapping_ok]" and after = "[emitted 7 mapping_ok]"]
  have second: "onLogs home [emitted 7 mapping_ok] (notifier full) = notifier full"
    using at_full skip by blast
  have third: "onLogs home ([emitted 7 mapping_ok] @ [emitted 7 mapping_ok]) (notifier waiting7) =
     foldl (processLog home ([emitted 7 mapping_ok] @ [emitted 7 mapping_ok]))
       ((notifier waiting7)\<lparr>processedLogsCount := length ([emitted 7 mapping_ok] @ [emitted 7 mapping_ok])\<rparr>)
       [emitted 7 mapping_ok]"
    using at_waiting step7 by blast
  have fourth: "notifier (run (clearLogs home full) [(home, NativeLog (emitted 7 mapping_ok))]) = notifier full"
    using at_full skip by blast
  have fifth: "silent (notifier full) (notifier (run full [(home, NativeLog (emitted 7 mapping_ok)), (home, ClearLogs),
                                               (home, NativeLog (emitted 7 mapping_ok))]))"
    using at_full cap(1) by blast
  have "length (synthesized full [(home, NativeLog (emitted 7 mapping_ok)), (home, ClearLogs),
                     (home, NativeLog (emitted 7 mapping_ok))]) +
        length (pending (notifier (run full [(home, NativeLog (emitted 7 mapping_ok)), (home, ClearLogs),
                     (home, NativeLog (emitted 7 mapping_ok))]))) \<le> length (pending (notifier full))"
    using at_full cap(1) by blast
  then have sixth: "synthesized full [(home, NativeLog (emitted 7 mapping_ok)), (home, ClearLogs),
                     (home, NativeLog (emitted 7 mapping_ok))] = []"
    unfolding cap(2) by simp
  have "set (logs (run full [(home, NativeLog (emitted 7 mapping_ok)), (home, ClearLogs),
                        (home, NativeLog (emitted 7 mapping_ok))]))
     \<subseteq> set (logs full) \<union> set (lines_of [(home, NativeLog (emitted 7 mapping_ok)), (home, ClearLogs),
                        (home, NativeLog (emitted 7 mapping_ok))]) \<union>
        set (synthesized full [(home, NativeLog (emitted 7 mapping_ok)), (home, ClearLogs),
                     (home, NativeLog (emitted 7 mapping_ok))])"
    using at_full cap(1) by blast
  then have seventh: "set (logs (run full [(home, NativeLog (emitted 7 mapping_ok)), (home, ClearLogs),
                        (home, NativeLog (emitted 7 mapping_ok))]))
     \<subseteq> {emitted 1 [], emitted 7 mapping_ok}"
    unfolding sixth cap(3) by auto
  show ?thesis using first second third fourth fifth sixth seventh by blast
qed

end
